theory Spec2Isabelle
  imports Main "HOL-Library.Sublist" "HOL-Library.List_Lexorder" "HOL-Library.Char_ord"
begin

section \<open>Strings and path lists\<close>

text \<open>
  The tool runs on macOS and Linux (the module docstring of \<^verbatim>\<open>paths.py\<close>), so
  \<^verbatim>\<open>os.sep\<close> is the slash and \<^verbatim>\<open>os.pathsep\<close> is the colon. Strings are byte
  strings: \<^verbatim>\<open>str.lower\<close>, \<^verbatim>\<open>str.strip\<close> and \<^verbatim>\<open>str.isdigit\<close> are modelled on
  ASCII.
\<close>

definition os_sep :: char where
  "os_sep = CHR ''/''"

definition os_pathsep :: char where
  "os_pathsep = CHR '':''"

text \<open>\<^verbatim>\<open>s.split(c)\<close> for a one-character separator: never the empty list.\<close>

fun split :: "char \<Rightarrow> string \<Rightarrow> string list" where
  "split c [] = [[]]"
| "split c (x # xs) =
     (if x = c then [] # split c xs
      else (case split c xs of
              [] \<Rightarrow> [[x]]
            | w # ws \<Rightarrow> (x # w) # ws))"

text \<open>\<^verbatim>\<open>c.join(ws)\<close>.\<close>

fun join :: "char \<Rightarrow> string list \<Rightarrow> string" where
  "join c [] = []"
| "join c [w] = w"
| "join c (w # v # ws) = w @ c # join c (v # ws)"

text \<open>\<^verbatim>\<open>p.startswith(t)\<close> for a tuple \<open>t\<close> of prefixes.\<close>

definition startswith_any :: "string \<Rightarrow> string list \<Rightarrow> bool" where
  "startswith_any p ts = list_ex (\<lambda>t. prefix t p) ts"

definition char_lower :: "char \<Rightarrow> char" where
  "char_lower c =
     (let n = (of_char c :: nat) in if 65 \<le> n \<and> n \<le> 90 then char_of (n + 32) else c)"

definition lower :: "string \<Rightarrow> string" where
  "lower s = map char_lower s"

definition is_space :: "char \<Rightarrow> bool" where
  "is_space c = (let n = (of_char c :: nat) in n = 32 \<or> (9 \<le> n \<and> n \<le> 13) \<or> (28 \<le> n \<and> n \<le> 31))"

definition lstrip :: "string \<Rightarrow> string" where
  "lstrip s = dropWhile is_space s"

definition strip :: "string \<Rightarrow> string" where
  "strip s = rev (dropWhile is_space (rev (lstrip s)))"

text \<open>\<^verbatim>\<open>a.rstrip(os.sep)\<close>.\<close>

definition rstrip_sep :: "string \<Rightarrow> string" where
  "rstrip_sep a = rev (dropWhile (\<lambda>c. c = os_sep) (rev a))"

definition is_digit :: "char \<Rightarrow> bool" where
  "is_digit c = (let n = (of_char c :: nat) in 48 \<le> n \<and> n \<le> 57)"

definition isdigit :: "string \<Rightarrow> bool" where
  "isdigit s = (s \<noteq> [] \<and> list_all is_digit s)"

text \<open>\<^verbatim>\<open>int(s)\<close> on a string of decimal digits.\<close>

definition int_of_digits :: "string \<Rightarrow> int" where
  "int_of_digits s = foldl (\<lambda>acc c. 10 * acc + (int (of_char c) - 48)) 0 s"

section \<open>Classification rules\<close>

definition SYSTEM_PREFIXES :: "string list" where
  "SYSTEM_PREFIXES =
     [''/System'', ''/bin'', ''/sbin'', ''/usr/bin'', ''/usr/sbin'', ''/usr/libexec'']"

definition BREW_PREFIXES :: "string list" where
  "BREW_PREFIXES = [''/opt/homebrew'', ''/usr/local'']"

definition DEV_PREFIXES :: "string list" where
  "DEV_PREFIXES = [''/Applications/Xcode.app'', ''/Library/Developer'', ''/Developer'']"

text \<open>
  \<^verbatim>\<open>KEYWORD_BUCKETS\<close> is a dict literal; Python iterates it in insertion order, so it is
  an association list here. \<^verbatim>\<open>HOME = str(Path.home())\<close> is read once at import and is a
  parameter.
\<close>

definition KEYWORD_BUCKETS :: "string \<Rightarrow> (string \<times> string list) list" where
  "KEYWORD_BUCKETS home =
     [(''Python'', [''pyenv'', ''conda'', ''anaconda'', ''miniconda'', ''venv'', ''virtualenv'',
                    ''pipx'', ''python'']),
      (''Node.js'', [''nvm'', ''node'', ''npm'', ''yarn'', ''pnpm'']),
      (''Java'', [''java'', ''jdk'', ''jre'', ''maven'', ''gradle'']),
      (''Go'', [''/go'', ''gobin'', ''golang'']),
      (''Rust'', [''cargo'', ''.cargo'', ''rustup'']),
      (''Ruby'', [''rbenv'', ''rvm'', ''ruby'', ''bundler'']),
      (''Android'', [''android'', ''sdk'']),
      (''Dotfiles / User Local'', [home, ''~'', ''.local'', ''.dotfiles'']),
      (''Cloud / DevOps'', [''aws'', ''gcloud'', ''google-cloud-sdk'', ''azure'', ''az'',
                            ''kubectl'', ''helm'', ''terraform'']),
      (''Databricks'', [''databricks'']),
      (''Databases'', [''postgres'', ''mysql'', ''mariadb'', ''mongo'', ''redis''])]"

text \<open>\<^verbatim>\<open>_contains_any\<close>: the first needle whose lower-cased form occurs in the haystack.\<close>

fun contains_any :: "string \<Rightarrow> string list \<Rightarrow> string option" where
  "contains_any haystack_lower [] = None"
| "contains_any haystack_lower (n # needles) =
     (if sublist (lower n) haystack_lower then Some n
      else contains_any haystack_lower needles)"

text \<open>
  The loop over the buckets in \<^verbatim>\<open>classify\<close>. \<^verbatim>\<open>if hit:\<close> tests the truth value of
  the returned needle, so an empty needle does not count as a hit.
\<close>

fun classify_buckets :: "string \<Rightarrow> (string \<times> string list) list \<Rightarrow> (string \<times> string) option" where
  "classify_buckets pl [] = None"
| "classify_buckets pl ((cat, needles) # rest) =
     (case contains_any pl needles of
        None \<Rightarrow> classify_buckets pl rest
      | Some hit \<Rightarrow>
          if hit \<noteq> [] then Some (cat, ''matched '' @ [CHR 0x27] @ hit @ [CHR 0x27])
          else classify_buckets pl rest)"

text \<open>\<^verbatim>\<open>re.search(r"/versions/node/v\d+", pl)\<close>.\<close>

definition node_version_at :: "string \<Rightarrow> bool" where
  "node_version_at s =
     (prefix ''/versions/node/v'' s \<and>
      (case drop 16 s of [] \<Rightarrow> False | c # _ \<Rightarrow> is_digit c))"

definition re_search_node :: "string \<Rightarrow> bool" where
  "re_search_node pl = list_ex node_version_at (suffixes pl)"

text \<open>\<^verbatim>\<open>re.search(r"/python\d+(\.\d+)?/", pl)\<close>.\<close>

definition python_version_at :: "string \<Rightarrow> bool" where
  "python_version_at s =
     (prefix ''/python'' s \<and>
      (let r = drop 7 s; r1 = dropWhile is_digit r in
       takeWhile is_digit r \<noteq> [] \<and>
       (case r1 of
          [] \<Rightarrow> False
        | c # r2 \<Rightarrow>
            c = CHR ''/'' \<or>
            (c = CHR ''.'' \<and> takeWhile is_digit r2 \<noteq> [] \<and>
             (case dropWhile is_digit r2 of [] \<Rightarrow> False | d # _ \<Rightarrow> d = CHR ''/'')))))"

definition re_search_python :: "string \<Rightarrow> bool" where
  "re_search_python pl = list_ex python_version_at (suffixes pl)"

definition classify :: "string \<Rightarrow> string \<Rightarrow> string \<times> string" where
  "classify home path =
     (let p = path; pl = lower p in
      if startswith_any p SYSTEM_PREFIXES then (''System'', ''system prefix'')
      else if startswith_any p DEV_PREFIXES
        then (''Apple / Xcode / Developer'', ''developer tools prefix'')
      else if startswith_any p BREW_PREFIXES
        then (if sublist ''/Cellar/'' p \<or> sublist ''/cellar/'' pl
              then (''Homebrew'', ''brew cellar'')
              else (''Homebrew'', ''brew prefix''))
      else (case classify_buckets pl (KEYWORD_BUCKETS home) of
              Some r \<Rightarrow> r
            | None \<Rightarrow>
                if re_search_node pl then (''Node.js'', ''node versioned path'')
                else if re_search_python pl then (''Python'', ''python versioned path'')
                else (''Other / Unknown'', ''no match'')))"

text \<open>
  The rule table of the specification: an ordered list of rules, each of which either
  answers or passes, read by first match with a default.
\<close>

type_synonym rule = "string \<Rightarrow> (string \<times> string) option"

definition system_rule :: rule where
  "system_rule p =
     (if startswith_any p SYSTEM_PREFIXES then Some (''System'', ''system prefix'') else None)"

definition developer_rule :: rule where
  "developer_rule p =
     (if startswith_any p DEV_PREFIXES
      then Some (''Apple / Xcode / Developer'', ''developer tools prefix'') else None)"

definition homebrew_rule :: rule where
  "homebrew_rule p =
     (if startswith_any p BREW_PREFIXES
      then Some (''Homebrew'',
                 if sublist ''/cellar/'' (lower p) then ''brew cellar'' else ''brew prefix'')
      else None)"

definition bucket_rule :: "string \<times> string list \<Rightarrow> rule" where
  "bucket_rule b p = classify_buckets (lower p) [b]"

definition node_regex_rule :: rule where
  "node_regex_rule p =
     (if re_search_node (lower p) then Some (''Node.js'', ''node versioned path'') else None)"

definition python_regex_rule :: rule where
  "python_regex_rule p =
     (if re_search_python (lower p) then Some (''Python'', ''python versioned path'') else None)"

definition rule_table :: "string \<Rightarrow> rule list" where
  "rule_table home =
     [system_rule, developer_rule, homebrew_rule] @ map bucket_rule (KEYWORD_BUCKETS home) @
     [node_regex_rule, python_regex_rule]"

fun first_match :: "rule list \<Rightarrow> string \<Rightarrow> string \<times> string" where
  "first_match [] p = (''Other / Unknown'', ''no match'')"
| "first_match (r # rs) p = (case r p of Some res \<Rightarrow> res | None \<Rightarrow> first_match rs p)"

text \<open>The components of a path string: the pieces between separators.\<close>

definition path_components :: "string \<Rightarrow> string list" where
  "path_components p = split os_sep p"

section \<open>The operating system\<close>

text \<open>
  What the program asks of the operating system and of \<^verbatim>\<open>os.path\<close>/\<^verbatim>\<open>pathlib\<close>, as the
  fields of a record. \<open>expand environ p\<close> is \<^verbatim>\<open>str(Path(os.path.expandvars(p)).expanduser())\<close>:
  \<^verbatim>\<open>expandvars\<close> reads \<^verbatim>\<open>os.environ\<close> (and \<^verbatim>\<open>expanduser\<close> reads its \<^verbatim>\<open>HOME\<close>), so
  the environment at the time of the call is an argument; the call raises
  \<^verbatim>\<open>RuntimeError\<close> when the home directory of \<^verbatim>\<open>~user\<close> cannot be determined (\<open>None\<close>).
  \<open>path_exists p\<close> and \<open>path_is_dir p\<close> are \<^verbatim>\<open>Path(p).exists()\<close> and \<^verbatim>\<open>Path(p).is_dir()\<close>,
  which answer \<^verbatim>\<open>False\<close> for a missing path and raise \<^verbatim>\<open>OSError\<close> for other
  failures of \<^verbatim>\<open>stat\<close>, such as a directory that may not be searched (\<open>None\<close>).
  \<open>path_resolve\<close> is \<^verbatim>\<open>str(Path(p).resolve())\<close> (\<open>None\<close> when it raises), \<open>normpath\<close> is
  \<^verbatim>\<open>os.path.normpath\<close>, \<open>iterdir\<close> lists the names of a directory's children in the
  order the system gives them (\<open>None\<close> when the listing raises), \<open>home\<close> is
  \<^verbatim>\<open>str(Path.home())\<close>.
\<close>

datatype error = RuntimeError | OSError | EOFError

type_synonym environ = "string \<rightharpoonup> string"

record fs =
  expand :: "environ \<Rightarrow> string \<Rightarrow> string option"
  path_exists :: "string \<Rightarrow> bool option"
  path_is_dir :: "string \<Rightarrow> bool option"
  path_resolve :: "string \<Rightarrow> string option"
  normpath :: "string \<Rightarrow> string"
  iterdir :: "string \<Rightarrow> string list option"
  home :: string

text \<open>\<^verbatim>\<open>os.environ.get(k, d)\<close>.\<close>

definition environ_get :: "environ \<Rightarrow> string \<Rightarrow> string \<Rightarrow> string" where
  "environ_get environ k d = (case environ k of None \<Rightarrow> d | Some v \<Rightarrow> v)"

text \<open>
  The test \<^verbatim>\<open>p.exists() and p.is_dir()\<close>: \<^verbatim>\<open>is_dir\<close> is asked only when \<^verbatim>\<open>exists\<close>
  answered \<^verbatim>\<open>True\<close>, and either call may raise (\<open>None\<close>).
\<close>

definition exists_and_is_dir :: "fs \<Rightarrow> string \<Rightarrow> bool option" where
  "exists_and_is_dir fs p =
     (case path_exists fs p of
        None \<Rightarrow> None
      | Some False \<Rightarrow> Some False
      | Some True \<Rightarrow> path_is_dir fs p)"

section \<open>Analysis\<close>

record entry =
  index :: int
  raw :: string
  expanded :: string
  normalized :: string
  exists :: bool
  is_dir :: bool
  category :: string
  reason :: string
  duplicate_of :: "int option"
  shadowed_by :: "int option"

text \<open>
  \<^verbatim>\<open>normalize_dir\<close>: the expansion is outside the \<^verbatim>\<open>try\<close>, the existence test and the
  resolution are inside it, and an exception there falls through to \<^verbatim>\<open>normpath\<close>.
\<close>

definition normalize_dir :: "fs \<Rightarrow> environ \<Rightarrow> string \<Rightarrow> error + string" where
  "normalize_dir fs environ p =
     (case expand fs environ p of
        None \<Rightarrow> Inl RuntimeError
      | Some expanded_p \<Rightarrow>
          Inr (case path_exists fs expanded_p of
                 Some True \<Rightarrow>
                   (case path_resolve fs expanded_p of
                      Some r \<Rightarrow> r
                    | None \<Rightarrow> normpath fs expanded_p)
               | Some False \<Rightarrow> normpath fs expanded_p
               | None \<Rightarrow> normpath fs expanded_p))"

text \<open>
  The inner loop of \<^verbatim>\<open>compute_shadowing\<close>: \<open>j\<close> runs over \<^verbatim>\<open>range(i)\<close> from 0 upwards,
  here over the first \<open>i\<close> pairs of \<^verbatim>\<open>normalized_list[j]\<close> and \<^verbatim>\<open>entries[j]\<close>, and stops
  at the first hit.
\<close>

definition is_within :: "string \<Rightarrow> string \<Rightarrow> bool" where
  "is_within a b = (b \<noteq> a \<and> prefix (rstrip_sep a @ [os_sep]) b)"

fun shadow_scan :: "string \<Rightarrow> (string \<times> entry) list \<Rightarrow> int option" where
  "shadow_scan b [] = None"
| "shadow_scan b ((a, ej) # rest) =
     (if is_within a b then Some (index ej) else shadow_scan b rest)"

definition compute_shadowing :: "entry list \<Rightarrow> entry list" where
  "compute_shadowing entries =
     (let normalized_list = map normalized entries in
      map (\<lambda>(i, e).
             case shadow_scan (normalized e) (take i (zip normalized_list entries)) of
               Some k \<Rightarrow> e\<lparr>shadowed_by := Some k\<rparr>
             | None \<Rightarrow> e)
          (enumerate 0 entries))"

text \<open>
  The main loop of \<^verbatim>\<open>analyze_path\<close>, \<^verbatim>\<open>for idx, raw in enumerate(parts, start=1)\<close>, with
  the dict \<^verbatim>\<open>seen\<close> and the list \<^verbatim>\<open>entries\<close> as accumulators. Nothing in the loop
  catches an exception: one raised by the expansion or by \<^verbatim>\<open>exists\<close>/\<^verbatim>\<open>is_dir\<close> ends
  the analysis.
\<close>

fun analyze_loop ::
  "fs \<Rightarrow> environ \<Rightarrow> int \<Rightarrow> string list \<Rightarrow> (string \<rightharpoonup> int) \<Rightarrow> entry list \<Rightarrow>
     error + entry list" where
  "analyze_loop fs environ idx [] seen entries = Inr entries"
| "analyze_loop fs environ idx (raw_seg # rest) seen entries =
     (case expand fs environ raw_seg of
        None \<Rightarrow> Inl RuntimeError
      | Some expanded_seg \<Rightarrow>
          (case normalize_dir fs environ raw_seg of
             Inl err \<Rightarrow> Inl err
           | Inr normalized_seg \<Rightarrow>
               (case path_exists fs expanded_seg of
                  None \<Rightarrow> Inl OSError
                | Some exists_seg \<Rightarrow>
                    (case (if exists_seg then path_is_dir fs expanded_seg else Some False) of
                       None \<Rightarrow> Inl OSError
                     | Some is_dir_seg \<Rightarrow>
                         (let (category_seg, reason_seg) = classify (home fs) normalized_seg;
                              duplicate_of_seg = seen normalized_seg;
                              seen' = (case seen normalized_seg of
                                         Some _ \<Rightarrow> seen
                                       | None \<Rightarrow> seen(normalized_seg \<mapsto> idx))
                          in analyze_loop fs environ (idx + 1) rest seen'
                               (entries @
                                [\<lparr>index = idx, raw = raw_seg, expanded = expanded_seg,
                                  normalized = normalized_seg, exists = exists_seg,
                                  is_dir = is_dir_seg,
                                  category = category_seg, reason = reason_seg,
                                  duplicate_of = duplicate_of_seg, shadowed_by = None\<rparr>]))))))"

text \<open>\<^verbatim>\<open>grouped.setdefault(e.category, []).append(e)\<close> on an insertion-ordered dict.\<close>

fun setdefault_append ::
  "(string \<times> entry list) list \<Rightarrow> string \<Rightarrow> entry \<Rightarrow> (string \<times> entry list) list" where
  "setdefault_append [] k e = [(k, [e])]"
| "setdefault_append ((k', es) # g) k e =
     (if k' = k then (k', es @ [e]) # g else (k', es) # setdefault_append g k e)"

definition group_by_category :: "entry list \<Rightarrow> (string \<times> entry list) list" where
  "group_by_category entries = foldl (\<lambda>g e. setdefault_append g (category e) e) [] entries"

text \<open>\<^verbatim>\<open>parts = raw_path.split(os.pathsep) if raw_path else []\<close>.\<close>

definition split_path :: "string \<Rightarrow> string list" where
  "split_path raw_path = (if raw_path \<noteq> [] then split os_pathsep raw_path else [])"

definition analyze_path ::
  "fs \<Rightarrow> environ \<Rightarrow> error + (string \<times> entry list \<times> (string \<times> entry list) list)" where
  "analyze_path fs environ =
     (let raw_path = environ_get environ ''PATH'' [];
          parts = split_path raw_path
      in case analyze_loop fs environ 1 parts Map.empty [] of
           Inl err \<Rightarrow> Inl err
         | Inr entries0 \<Rightarrow>
             (let entries = compute_shadowing entries0
              in Inr (raw_path, entries, group_by_category entries)))"

text \<open>The test \<^verbatim>\<open>not e.exists or not e.is_dir\<close> that every report and the fixer use.\<close>

definition is_broken :: "entry \<Rightarrow> bool" where
  "is_broken e = (\<not> exists e \<or> \<not> is_dir e)"

section \<open>Pure paths\<close>

text \<open>
  \<^verbatim>\<open>pathlib\<close>'s pure POSIX paths, as far as the program uses them: a path is its root
  and its components. The root is empty (a relative path), one slash, or two slashes
  (exactly two leading slashes are kept apart); parsing drops empty and \<^verbatim>\<open>.\<close>
  components, and the string of the empty relative path is \<^verbatim>\<open>.\<close>.
\<close>

datatype pure_path = PurePath string "string list"

definition path_root :: "string \<Rightarrow> string" where
  "path_root s =
     (if prefix [os_sep, os_sep] s \<and> \<not> prefix [os_sep, os_sep, os_sep] s then [os_sep, os_sep]
      else if prefix [os_sep] s then [os_sep]
      else [])"

definition Path :: "string \<Rightarrow> pure_path" where
  "Path s = PurePath (path_root s) (filter (\<lambda>c. c \<noteq> [] \<and> c \<noteq> ''.'') (split os_sep s))"

fun path_str :: "pure_path \<Rightarrow> string" where
  "path_str (PurePath root comps) =
     (if root = [] \<and> comps = [] then ''.'' else root @ join os_sep comps)"

fun path_name :: "pure_path \<Rightarrow> string" where
  "path_name (PurePath root comps) = (if comps = [] then [] else last comps)"

fun path_parent :: "pure_path \<Rightarrow> pure_path" where
  "path_parent (PurePath root comps) = PurePath root (butlast comps)"

text \<open>\<^verbatim>\<open>cur / name\<close> for a one-component name.\<close>

fun path_child :: "pure_path \<Rightarrow> string \<Rightarrow> pure_path" where
  "path_child (PurePath root comps) name = PurePath root (comps @ [name])"

fun path_depth :: "pure_path \<Rightarrow> nat" where
  "path_depth (PurePath root comps) = length comps"

section \<open>Suggestions\<close>

text \<open>How a loop body leaves: on to the next round, by \<^verbatim>\<open>return\<close>, or by an exception.\<close>

datatype 'a flow = Next 'a | Return 'a | Raise error

text \<open>
  The \<^verbatim>\<open>while True\<close> loop that walks up to the closest existing directory. The test
  is not guarded: an exception of \<^verbatim>\<open>exists\<close> or \<^verbatim>\<open>is_dir\<close> leaves the function.
\<close>

function find_existing_ancestor :: "fs \<Rightarrow> pure_path \<Rightarrow> error + pure_path option" where
  "find_existing_ancestor fs cursor =
     (case exists_and_is_dir fs (path_str cursor) of
        None \<Rightarrow> Inl OSError
      | Some True \<Rightarrow> Inr (Some cursor)
      | Some False \<Rightarrow>
          if path_parent cursor = cursor then Inr None
          else find_existing_ancestor fs (path_parent cursor))"
  by pat_completeness auto
termination
proof (relation "measure (\<lambda>(fs, cursor). path_depth cursor)")
  show "wf (measure (\<lambda>(fs, cursor). path_depth cursor))" by simp
next
  fix fs :: fs and cursor :: pure_path
  assume "path_parent cursor \<noteq> cursor"
  then show "((fs, path_parent cursor), (fs, cursor)) \<in> measure (\<lambda>(fs, cursor). path_depth cursor)"
    by (cases cursor) (auto simp: butlast_conv_take)
qed

declare find_existing_ancestor.simps [simp del]

text \<open>
  The loop over the sorted children of the existing ancestor. It runs inside
  \<^verbatim>\<open>try ... except Exception: pass\<close>: when \<^verbatim>\<open>is_dir\<close> or \<^verbatim>\<open>resolve\<close> raises, the loop
  ends and the suggestions collected so far stay.
\<close>

fun sibling_loop ::
  "fs \<Rightarrow> pure_path \<Rightarrow> string \<Rightarrow> int \<Rightarrow> string list \<Rightarrow> string list \<Rightarrow> string list flow" where
  "sibling_loop fs anc target_name limit [] suggestions = Next suggestions"
| "sibling_loop fs anc target_name limit (c # rest) suggestions =
     (let child = path_child anc c; name = path_name child in
      case path_is_dir fs (path_str child) of
        None \<Rightarrow> Next suggestions
      | Some False \<Rightarrow> sibling_loop fs anc target_name limit rest suggestions
      | Some True \<Rightarrow>
          if target_name \<noteq> [] \<and>
             (name = target_name \<or> prefix target_name name \<or> prefix name target_name)
            then (case path_resolve fs (path_str child) of
                    None \<Rightarrow> Next suggestions
                  | Some s \<Rightarrow>
                      (let suggestions' = suggestions @ [s] in
                       if limit \<le> int (length suggestions') then Return suggestions'
                       else sibling_loop fs anc target_name limit rest suggestions'))
          else sibling_loop fs anc target_name limit rest suggestions)"

text \<open>
  \<^verbatim>\<open>for candidate in [cur / "bin", cur / "sbin"]\<close>; here neither the test nor
  \<^verbatim>\<open>resolve\<close> is guarded.
\<close>

fun candidate_loop ::
  "fs \<Rightarrow> pure_path \<Rightarrow> int \<Rightarrow> string list \<Rightarrow> string list \<Rightarrow> string list flow" where
  "candidate_loop fs cur limit [] suggestions = Next suggestions"
| "candidate_loop fs cur limit (c # rest) suggestions =
     (let candidate = path_child cur c in
      case exists_and_is_dir fs (path_str candidate) of
        None \<Rightarrow> Raise OSError
      | Some False \<Rightarrow> candidate_loop fs cur limit rest suggestions
      | Some True \<Rightarrow>
          (case path_resolve fs (path_str candidate) of
             None \<Rightarrow> Raise OSError
           | Some s \<Rightarrow>
               if s \<notin> set suggestions
                 then (let suggestions' = suggestions @ [s] in
                       if limit \<le> int (length suggestions') then Return suggestions'
                       else candidate_loop fs cur limit rest suggestions')
               else candidate_loop fs cur limit rest suggestions))"

text \<open>\<^verbatim>\<open>for _ in range(4)\<close>: the number of rounds left is the third argument.\<close>

fun ancestor_walk ::
  "fs \<Rightarrow> int \<Rightarrow> nat \<Rightarrow> pure_path \<Rightarrow> string list \<Rightarrow> string list flow" where
  "ancestor_walk fs limit 0 cur suggestions = Next suggestions"
| "ancestor_walk fs limit (Suc n) cur suggestions =
     (case (case exists_and_is_dir fs (path_str cur) of
              None \<Rightarrow> Raise OSError
            | Some True \<Rightarrow> candidate_loop fs cur limit [''bin'', ''sbin''] suggestions
            | Some False \<Rightarrow> Next suggestions) of
        Next suggestions' \<Rightarrow>
          if path_parent cur = cur then Next suggestions'
          else ancestor_walk fs limit n (path_parent cur) suggestions'
      | Return r \<Rightarrow> Return r
      | Raise err \<Rightarrow> Raise err)"

text \<open>\<^verbatim>\<open>xs[:limit]\<close>: a negative bound counts from the end.\<close>

definition py_slice_to :: "'a list \<Rightarrow> int \<Rightarrow> 'a list" where
  "py_slice_to xs limit =
     (if 0 \<le> limit then take (nat limit) xs else take (nat (int (length xs) + limit)) xs)"

definition suggest_alternatives :: "fs \<Rightarrow> environ \<Rightarrow> string \<Rightarrow> int \<Rightarrow> error + string list" where
  "suggest_alternatives fs environ broken_path limit =
     (case normalize_dir fs environ broken_path of
        Inl err \<Rightarrow> Inl err
      | Inr nrm \<Rightarrow>
          (let p = Path nrm in
           if strip (path_str p) = [] then Inr []
           else
             (let target_name = path_name p;
                  parent = path_parent p
              in case find_existing_ancestor fs p of
                   Inl err \<Rightarrow> Inl err
                 | Inr existing_ancestor \<Rightarrow>
                     (case (case existing_ancestor of
                              None \<Rightarrow> Next []
                            | Some anc \<Rightarrow>
                                (case iterdir fs (path_str anc) of
                                   None \<Rightarrow> Next []
                                 | Some names \<Rightarrow>
                                     sibling_loop fs anc target_name limit (sort names) [])) of
                        Return r \<Rightarrow> Inr r
                      | Raise err \<Rightarrow> Inl err
                      | Next suggestions \<Rightarrow>
                          if target_name \<in> {''bin'', ''sbin''}
                            then (case ancestor_walk fs limit 4 parent suggestions of
                                    Return r \<Rightarrow> Inr r
                                  | Raise err \<Rightarrow> Inl err
                                  | Next suggestions' \<Rightarrow> Inr (py_slice_to suggestions' limit))
                          else Inr (py_slice_to suggestions limit)))))"

section \<open>The fix session\<close>

text \<open>\<^verbatim>\<open>rebuild_path\<close>, and the list the session starts from (\<^verbatim>\<open>current_parts\<close>).\<close>

definition rebuild_path :: "string list \<Rightarrow> string" where
  "rebuild_path ps = (let cleaned = filter (\<lambda>p. p \<noteq> []) ps in join os_pathsep cleaned)"

definition initial_parts :: "string \<Rightarrow> string list" where
  "initial_parts raw_path = filter (\<lambda>p. p \<noteq> []) (split_path raw_path)"

text \<open>
  \<^verbatim>\<open>reanalyze_with\<close>: the environment is state, passed in and returned. The
  \<^verbatim>\<open>finally\<close> clause runs on both exits of \<^verbatim>\<open>analyze_path\<close>, so the environment
  returned is the one after it, with the result or the exception beside it.
\<close>

definition reanalyze_with ::
  "fs \<Rightarrow> environ \<Rightarrow> string \<Rightarrow> (error + (string \<times> entry list)) \<times> environ" where
  "reanalyze_with fs environ path_value =
     (let old = environ_get environ ''PATH'' [];
          environ1 = environ(''PATH'' \<mapsto> path_value);
          result = (case analyze_path fs environ1 of
                      Inl err \<Rightarrow> Inl err
                    | Inr (new_raw, new_entries, _) \<Rightarrow> Inr (new_raw, new_entries));
          environ2 = environ1(''PATH'' \<mapsto> old)
      in (result, environ2))"

text \<open>The same pattern at the end of \<^verbatim>\<open>main\<close>, which keeps the grouping only.\<close>

definition main_regroup ::
  "fs \<Rightarrow> environ \<Rightarrow> string \<Rightarrow> (error + (string \<times> entry list) list) \<times> environ" where
  "main_regroup fs environ raw_path =
     (let old = environ_get environ ''PATH'' [];
          environ1 = environ(''PATH'' \<mapsto> raw_path);
          result = (case analyze_path fs environ1 of
                      Inl err \<Rightarrow> Inl err
                    | Inr (_, _, grouped) \<Rightarrow> Inr grouped);
          environ2 = environ1(''PATH'' \<mapsto> old)
      in (result, environ2))"

text \<open>
  The lines the fixer writes to its log, one constructor per message: for the messages of
  an action the entry's index first, then the values the message formats.
\<close>

datatype log_record =
    SESSION_START
  | ORIGINAL_PATH string
  | QUIT
  | PREVIEW
  | SESSION_COMPLETE
  | PROPOSED_PATH string
  | INDEX_MISMATCH int
  | KEEP int string
  | REMOVE int string
  | REPLACE_manual int string string
  | REPLACE_MKDIR_manual int string string
  | MKDIR_FAILED int string string
  | SUGGESTION_NONE int string
  | REPLACE_suggested int string string
  | SUGGESTED_INVALID int string
  | MKDIR int string

text \<open>
  What \<^verbatim>\<open>_apply_fix_for_entry\<close> reads and changes: the list \<^verbatim>\<open>parts\<close> (mutated in
  place), the log, the lines still to come from \<^verbatim>\<open>input()\<close>, and the file system, which
  \<^verbatim>\<open>mkdir\<close> changes. Output to the terminal is left out. \<^verbatim>\<open>input()\<close> with no line left
  raises \<^verbatim>\<open>EOFError\<close>.
\<close>

record fix_state =
  cur_parts :: "string list"
  logged :: "log_record list"
  stdin :: "string list"
  disk :: fs

datatype outcome = Returns fix_state | Raises error fix_state

text \<open>
  \<^verbatim>\<open>p.mkdir(parents=True, exist_ok=True)\<close>: the file system after the call, and the text
  of the exception when it raised.
\<close>

type_synonym mkdir = "fs \<Rightarrow> string \<Rightarrow> string option \<times> fs"

text \<open>
  The \<^verbatim>\<open>while True\<close> loop of action 3. The environment is the one of the process
  (\<^verbatim>\<open>reanalyze_with\<close> has restored it), read by the expansion of the typed text.
\<close>

fun replace_manual_loop ::
  "mkdir \<Rightarrow> environ \<Rightarrow> entry \<Rightarrow> nat \<Rightarrow> string list \<Rightarrow> string list \<Rightarrow> log_record list \<Rightarrow> fs \<Rightarrow>
     outcome" where
  "replace_manual_loop mk environ e i0 [] ps lg d =
     Raises EOFError \<lparr>cur_parts = ps, logged = lg, stdin = [], disk = d\<rparr>"
| "replace_manual_loop mk environ e i0 (line # rest) ps lg d =
     (let typed = strip line in
      if lower typed = ''b'' then Returns \<lparr>cur_parts = ps, logged = lg, stdin = rest, disk = d\<rparr>
      else if typed = [] then replace_manual_loop mk environ e i0 rest ps lg d
      else
        (case normalize_dir d environ typed of
           Inl err \<Rightarrow> Raises err \<lparr>cur_parts = ps, logged = lg, stdin = rest, disk = d\<rparr>
         | Inr nrm \<Rightarrow>
             (let p = path_str (Path nrm) in
              case exists_and_is_dir d p of
                None \<Rightarrow> Raises OSError \<lparr>cur_parts = ps, logged = lg, stdin = rest, disk = d\<rparr>
              | Some True \<Rightarrow>
                  Returns \<lparr>cur_parts = ps[i0 := typed],
                           logged = lg @ [REPLACE_manual (index e) (normalized e) nrm],
                           stdin = rest, disk = d\<rparr>
              | Some False \<Rightarrow>
                  (case rest of
                     [] \<Rightarrow> Raises EOFError \<lparr>cur_parts = ps, logged = lg, stdin = [], disk = d\<rparr>
                   | yn_line # rest' \<Rightarrow>
                       if lower (strip yn_line) = ''y''
                         then (case mk d p of
                                 (None, d') \<Rightarrow>
                                   Returns \<lparr>cur_parts = ps[i0 := typed],
                                            logged = lg @ [REPLACE_MKDIR_manual (index e) (normalized e) nrm],
                                            stdin = rest', disk = d'\<rparr>
                               | (Some ex, d') \<Rightarrow>
                                   replace_manual_loop mk environ e i0 rest' ps
                                     (lg @ [MKDIR_FAILED (index e) nrm ex]) d')
                       else replace_manual_loop mk environ e i0 rest' ps lg d))))"

text \<open>\<^verbatim>\<open>_apply_fix_for_entry\<close>; \<^verbatim>\<open>suggest_alternatives(e.raw)\<close> is called with its default limit 8.\<close>

definition apply_fix_for_entry :: "mkdir \<Rightarrow> environ \<Rightarrow> entry \<Rightarrow> fix_state \<Rightarrow> outcome" where
  "apply_fix_for_entry mk environ e st =
     (let i0 = index e - 1; ps = cur_parts st in
      if i0 < 0 \<or> int (length ps) \<le> i0
        then Returns (st\<lparr>logged := logged st @ [INDEX_MISMATCH (index e)]\<rparr>)
      else
        (case suggest_alternatives (disk st) environ (raw e) 8 of
           Inl err \<Rightarrow> Raises err st
         | Inr alts \<Rightarrow>
             (case stdin st of
                [] \<Rightarrow> Raises EOFError st
              | line # rest \<Rightarrow>
                  (let action = lower (strip line); st1 = st\<lparr>stdin := rest\<rparr> in
                   if action = ''b'' then Returns st1
                   else if action \<notin> {''1'', ''2'', ''3'', ''4'', ''5''} then Returns st1
                   else if action = ''1''
                     then Returns (st1\<lparr>logged := logged st @ [KEEP (index e) (normalized e)]\<rparr>)
                   else if action = ''2''
                     then Returns (st1\<lparr>logged := logged st @ [REMOVE (index e) (normalized e)],
                                       cur_parts := take (nat i0) ps @ drop (nat i0 + 1) ps\<rparr>)
                   else if action = ''3''
                     then replace_manual_loop mk environ e (nat i0) rest ps (logged st) (disk st)
                   else if action = ''4''
                     then (if alts = []
                           then Returns (st1\<lparr>logged := logged st @ [SUGGESTION_NONE (index e) (normalized e)]\<rparr>)
                           else
                             (case rest of
                                [] \<Rightarrow> Raises EOFError st1
                              | pick_line # rest' \<Rightarrow>
                                  (let pick = lower (strip pick_line); st2 = st\<lparr>stdin := rest'\<rparr> in
                                   if pick = ''b'' then Returns st2
                                   else if isdigit pick \<and> 1 \<le> int_of_digits pick \<and>
                                           int_of_digits pick \<le> int (length alts)
                                     then (let chosen = alts ! nat (int_of_digits pick - 1);
                                               c = path_str (Path chosen) in
                                           case exists_and_is_dir (disk st) c of
                                             None \<Rightarrow> Raises OSError st2
                                           | Some True \<Rightarrow>
                                               Returns
                                                 (st2\<lparr>logged := logged st @
                                                         [REPLACE_suggested (index e) (normalized e) chosen],
                                                       cur_parts := ps[nat i0 := chosen]\<rparr>)
                                           | Some False \<Rightarrow>
                                               Returns
                                                 (st2\<lparr>logged := logged st @
                                                         [SUGGESTED_INVALID (index e) chosen]\<rparr>))
                                   else Returns st2)))
                   else
                     (case normalize_dir (disk st) environ (raw e) of
                        Inl err \<Rightarrow> Raises err st1
                      | Inr target \<Rightarrow>
                          (case mk (disk st) (path_str (Path target)) of
                             (None, d') \<Rightarrow>
                               Returns (st1\<lparr>logged := logged st @ [MKDIR (index e) target],
                                            cur_parts := ps[nat i0 := raw e], disk := d'\<rparr>)
                           | (Some ex, d') \<Rightarrow>
                               Returns (st1\<lparr>logged := logged st @ [MKDIR_FAILED (index e) target ex],
                                            disk := d'\<rparr>)))))))"

text \<open>\<^verbatim>\<open>str(n)\<close> for an integer.\<close>

fun nat_digits :: "nat \<Rightarrow> string" where
  "nat_digits n =
     (if n < 10 then [char_of (48 + n)] else nat_digits (n div 10) @ [char_of (48 + n mod 10)])"

declare nat_digits.simps [simp del]

definition py_str :: "int \<Rightarrow> string" where
  "py_str i = (if i < 0 then CHR ''-'' # nat_digits (nat (- i)) else nat_digits (nat i))"

text \<open>
  The guided loop of command \<^verbatim>\<open>a\<close>. It has no bound of its own (an index mismatch
  makes \<^verbatim>\<open>_apply_fix_for_entry\<close> return without reading input, and the loop then
  repeats), so it runs on fuel: \<open>None\<close> means that the fuel ran out. The loop assigns
  \<^verbatim>\<open>cmd\<close>, which the code after it reads, so the value of \<^verbatim>\<open>cmd\<close> is passed in and
  returned.
\<close>

datatype guided_result =
    GuidedDone string environ fix_state
  | GuidedRaised error environ fix_state

fun guided_fix_all ::
  "mkdir \<Rightarrow> nat \<Rightarrow> string \<Rightarrow> environ \<Rightarrow> fix_state \<Rightarrow> guided_result option" where
  "guided_fix_all mk 0 cmd env st = None"
| "guided_fix_all mk (Suc n) cmd env st =
     (case reanalyze_with (disk st) env (rebuild_path (cur_parts st)) of
        (Inl err, env') \<Rightarrow> Some (GuidedRaised err env' st)
      | (Inr (current_raw, current_entries), env') \<Rightarrow>
          (case filter is_broken current_entries of
             [] \<Rightarrow> Some (GuidedDone cmd env' st)
           | target_entry # _ \<Rightarrow>
               (let cmd' = py_str (index target_entry) in
                if \<not> isdigit cmd' then Some (GuidedDone cmd' env' st)
                else
                  (case find (\<lambda>x. index x = int_of_digits cmd') current_entries of
                     None \<Rightarrow> Some (GuidedDone cmd' env' st)
                   | Some e \<Rightarrow>
                       (case apply_fix_for_entry mk env' e st of
                          Raises err st' \<Rightarrow> Some (GuidedRaised err env' st')
                        | Returns st' \<Rightarrow> guided_fix_all mk n cmd' env' st')))))"

text \<open>
  The command loop of \<^verbatim>\<open>interactive_fix_broken_paths\<close>, on fuel as well since it runs
  the guided loop. It ends by \<^verbatim>\<open>break\<close> (no error) or by an exception.
\<close>

fun fix_loop ::
  "mkdir \<Rightarrow> nat \<Rightarrow> environ \<Rightarrow> fix_state \<Rightarrow> (error option \<times> environ \<times> fix_state) option" where
  "fix_loop mk 0 env st = None"
| "fix_loop mk (Suc n) env st =
     (case stdin st of
        [] \<Rightarrow> Some (Some EOFError, env, st)
      | line # rest \<Rightarrow>
          (let cmd = lower (strip line); st1 = st\<lparr>stdin := rest\<rparr> in
           if cmd = ''q'' then Some (None, env, st1\<lparr>logged := logged st1 @ [QUIT]\<rparr>)
           else if cmd = ''p''
             then (case reanalyze_with (disk st1) env (rebuild_path (cur_parts st1)) of
                     (Inl err, env') \<Rightarrow> Some (Some err, env', st1)
                   | (Inr _, env') \<Rightarrow> fix_loop mk n env' (st1\<lparr>logged := logged st1 @ [PREVIEW]\<rparr>))
           else
             (case (if cmd = ''a'' then guided_fix_all mk n cmd env st1
                    else Some (GuidedDone cmd env st1)) of
                None \<Rightarrow> None
              | Some (GuidedRaised err env' st') \<Rightarrow> Some (Some err, env', st')
              | Some (GuidedDone cmd' env1 st2) \<Rightarrow>
                  if \<not> isdigit cmd' then fix_loop mk n env1 st2
                  else
                    (case reanalyze_with (disk st2) env1 (rebuild_path (cur_parts st2)) of
                       (Inl err, env2) \<Rightarrow> Some (Some err, env2, st2)
                     | (Inr (current_raw, current_entries), env2) \<Rightarrow>
                         (case find (\<lambda>x. index x = int_of_digits cmd') current_entries of
                            None \<Rightarrow> fix_loop mk n env2 st2
                          | Some e \<Rightarrow>
                              if exists e \<and> is_dir e then fix_loop mk n env2 st2
                              else
                                (case apply_fix_for_entry mk env2 e st2 of
                                   Raises err st3 \<Rightarrow> Some (Some err, env2, st3)
                                 | Returns st3 \<Rightarrow>
                                     (case reanalyze_with (disk st3) env2
                                             (rebuild_path (cur_parts st3)) of
                                        (Inl err, env3) \<Rightarrow> Some (Some err, env3, st3)
                                      | (Inr _, env3) \<Rightarrow> fix_loop mk n env3 st3)))))))"

text \<open>
  \<^verbatim>\<open>interactive_fix_broken_paths\<close>. The state passed in gives the log, the input and
  the file system; \<^verbatim>\<open>current_parts\<close> is set here. The result is the pair the function
  returns, or the exception, with the environment and the state at that point.
\<close>

definition interactive_fix_broken_paths ::
  "mkdir \<Rightarrow> nat \<Rightarrow> environ \<Rightarrow> string \<Rightarrow> entry list \<Rightarrow> fix_state \<Rightarrow>
     ((error + string \<times> entry list) \<times> environ \<times> fix_state) option" where
  "interactive_fix_broken_paths mk fuel env raw_path entries st =
     (let current_parts = initial_parts raw_path;
          broken = filter is_broken entries
      in if broken = [] then Some (Inr (raw_path, entries), env, st)
         else
           (let st0 = st\<lparr>cur_parts := current_parts,
                          logged := logged st @ [SESSION_START, ORIGINAL_PATH raw_path]\<rparr>
            in case reanalyze_with (disk st0) env (rebuild_path current_parts) of
                 (Inl err, env0) \<Rightarrow> Some (Inl err, env0, st0)
               | (Inr _, env0) \<Rightarrow>
                   (case fix_loop mk fuel env0 st0 of
                      None \<Rightarrow> None
                    | Some (Some err, env1, st1) \<Rightarrow> Some (Inl err, env1, st1)
                    | Some (None, env1, st1) \<Rightarrow>
                        (let proposed = rebuild_path (cur_parts st1);
                             st2 = st1\<lparr>logged := logged st1 @
                                            [SESSION_COMPLETE, PROPOSED_PATH proposed]\<rparr>
                         in case reanalyze_with (disk st2) env1 proposed of
                              (Inl err, env2) \<Rightarrow> Some (Inl err, env2, st2)
                            | (Inr (new_raw, new_entries), env2) \<Rightarrow>
                                Some (Inr (new_raw, new_entries), env2, st2)))))"

section \<open>A file system of directories\<close>

text \<open>
  The examples run on a concrete operating system: a tree of directories without files
  or symbolic links, in which every \<^verbatim>\<open>stat\<close> succeeds or reports a missing path, a
  process whose working directory is the root, and one user. On it the fields of \<open>fs\<close>
  are the library functions themselves. \<open>expandvars\<close> is \<^verbatim>\<open>os.path.expandvars\<close>: it
  replaces \<^verbatim>\<open>$name\<close> and \<^verbatim>\<open>${name}\<close> by the value of a set variable, once, from left to
  right, and leaves the reference to an unset variable as it is.
\<close>

definition is_word_char :: "char \<Rightarrow> bool" where
  "is_word_char c =
     (let n = (of_char c :: nat)
      in (48 \<le> n \<and> n \<le> 57) \<or> (65 \<le> n \<and> n \<le> 90) \<or> (97 \<le> n \<and> n \<le> 122) \<or> n = 95)"

function expandvars :: "environ \<Rightarrow> string \<Rightarrow> string" where
  "expandvars environ [] = []"
| "expandvars environ (c # cs) =
     (if c \<noteq> CHR ''$'' then c # expandvars environ cs
      else if cs \<noteq> [] \<and> hd cs = CHR 0x7B \<and> CHR 0x7D \<in> set (tl cs) then
        (case environ (takeWhile (\<lambda>x. x \<noteq> CHR 0x7D) (tl cs)) of
           Some v \<Rightarrow> v @ expandvars environ (tl (dropWhile (\<lambda>x. x \<noteq> CHR 0x7D) (tl cs)))
         | None \<Rightarrow>
             c # CHR 0x7B # takeWhile (\<lambda>x. x \<noteq> CHR 0x7D) (tl cs) @
               CHR 0x7D # expandvars environ (tl (dropWhile (\<lambda>x. x \<noteq> CHR 0x7D) (tl cs))))
      else if takeWhile is_word_char cs \<noteq> [] then
        (case environ (takeWhile is_word_char cs) of
           Some v \<Rightarrow> v @ expandvars environ (dropWhile is_word_char cs)
         | None \<Rightarrow> c # takeWhile is_word_char cs @ expandvars environ (dropWhile is_word_char cs))
      else c # expandvars environ cs)"
  by pat_completeness auto
termination
proof (relation "measure (\<lambda>(environ, s). length s)", goal_cases)
  case 1
  show ?case by simp
next
  case (2 environ c cs)
  show ?case by simp
next
  case (3 environ c cs)
  show ?case using length_dropWhile_le[of "\<lambda>x. x \<noteq> CHR 0x7D" "tl cs"] by simp
next
  case (4 environ c cs v)
  show ?case using length_dropWhile_le[of "\<lambda>x. x \<noteq> CHR 0x7D" "tl cs"] by simp
next
  case (5 environ c cs)
  show ?case using length_dropWhile_le[of is_word_char cs] by simp
next
  case (6 environ c cs v)
  show ?case using length_dropWhile_le[of is_word_char cs] by simp
next
  case (7 environ c cs)
  show ?case by simp
qed

text \<open>
  \<^verbatim>\<open>os.path.expanduser\<close> on a first component that starts with a tilde, for a system
  whose only user is \<open>user\<close> with the home directory \<open>pw_dir\<close>: \<^verbatim>\<open>~\<close> is \<^verbatim>\<open>HOME\<close> when it
  is set and the user's home otherwise, \<^verbatim>\<open>~user\<close> is the user's home, and any other
  \<^verbatim>\<open>~name\<close> comes back unchanged. \<open>expanduser\<close> is \<^verbatim>\<open>Path.expanduser\<close>, which raises
  \<^verbatim>\<open>RuntimeError\<close> (\<open>None\<close>) in that last case.
\<close>

definition os_expanduser :: "environ \<Rightarrow> string \<Rightarrow> string \<Rightarrow> string \<Rightarrow> string" where
  "os_expanduser environ user pw_dir c =
     (if c = ''~''
        then (let userhome = rstrip_sep (environ_get environ ''HOME'' pw_dir)
              in if userhome = [] then [os_sep] else userhome)
      else if tl c = user
        then (let userhome = rstrip_sep pw_dir in if userhome = [] then [os_sep] else userhome)
      else c)"

fun expanduser :: "environ \<Rightarrow> string \<Rightarrow> string \<Rightarrow> pure_path \<Rightarrow> pure_path option" where
  "expanduser environ user pw_dir (PurePath root comps) =
     (if root = [] \<and> comps \<noteq> [] \<and> prefix ''~'' (hd comps)
        then (let homedir = os_expanduser environ user pw_dir (hd comps)
              in if prefix ''~'' homedir then None
                 else (case Path homedir of
                         PurePath home_root home_comps \<Rightarrow>
                           Some (PurePath home_root (home_comps @ tl comps))))
      else Some (PurePath root comps))"

text \<open>\<^verbatim>\<open>os.path.normpath\<close>.\<close>

fun norm_comps :: "bool \<Rightarrow> string list \<Rightarrow> string list \<Rightarrow> string list" where
  "norm_comps rooted new_comps [] = new_comps"
| "norm_comps rooted new_comps (c # cs) =
     (if c = [] \<or> c = ''.'' then norm_comps rooted new_comps cs
      else if c \<noteq> ''..'' \<or> (\<not> rooted \<and> new_comps = []) \<or>
              (new_comps \<noteq> [] \<and> last new_comps = ''..'')
        then norm_comps rooted (new_comps @ [c]) cs
      else if new_comps \<noteq> [] then norm_comps rooted (butlast new_comps) cs
      else norm_comps rooted new_comps cs)"

definition posix_normpath :: "string \<Rightarrow> string" where
  "posix_normpath p =
     (if p = [] then ''.''
      else (let initial_slashes = path_root p;
                s = initial_slashes @
                    join os_sep (norm_comps (initial_slashes \<noteq> []) [] (split os_sep p))
            in if s = [] then ''.'' else s))"

text \<open>
  The directories: every listed directory with all its ancestors, as lists of
  components. \<open>walk\<close> follows a path string from the root, which is also the working
  directory, one component at a time as the system does: every directory on the way has
  to exist, \<^verbatim>\<open>..\<close> leads to the parent. \<open>realpath\<close> is \<^verbatim>\<open>os.path.realpath\<close>, which without
  symbolic links is the absolute path with \<^verbatim>\<open>.\<close> and \<^verbatim>\<open>..\<close> removed.
\<close>

definition dir_tree :: "string list \<Rightarrow> string list list" where
  "dir_tree ds =
     remdups ([] # concat (map (\<lambda>d. prefixes (filter (\<lambda>c. c \<noteq> [] \<and> c \<noteq> ''.'') (split os_sep d))) ds))"

fun walk :: "string list list \<Rightarrow> string list \<Rightarrow> string list \<Rightarrow> string list option" where
  "walk dirs cur [] = (if cur \<in> set dirs then Some cur else None)"
| "walk dirs cur (c # cs) =
     (if cur \<notin> set dirs then None
      else if c = [] \<or> c = ''.'' then walk dirs cur cs
      else if c = ''..'' then walk dirs (butlast cur) cs
      else walk dirs (cur @ [c]) cs)"

definition lookup_dir :: "string list list \<Rightarrow> string \<Rightarrow> string list option" where
  "lookup_dir dirs p = (if p = [] then None else walk dirs [] (split os_sep p))"

definition children :: "string list list \<Rightarrow> string list \<Rightarrow> string list" where
  "children dirs d = map last (filter (\<lambda>x. x \<noteq> [] \<and> butlast x = d) dirs)"

fun lexical :: "string list \<Rightarrow> string list \<Rightarrow> string list" where
  "lexical cur [] = cur"
| "lexical cur (c # cs) =
     (if c = [] \<or> c = ''.'' then lexical cur cs
      else if c = ''..'' then lexical (butlast cur) cs
      else lexical (cur @ [c]) cs)"

definition realpath :: "string \<Rightarrow> string" where
  "realpath p = os_sep # join os_sep (lexical [] (split os_sep p))"

definition fs_of_dirs :: "string list \<Rightarrow> fs" where
  "fs_of_dirs ds =
     \<lparr>expand = (\<lambda>environ p.
                  map_option path_str
                    (expanduser environ ''dave'' ''/Users/dave'' (Path (expandvars environ p)))),
      path_exists = (\<lambda>p. Some (lookup_dir (dir_tree ds) p \<noteq> None)),
      path_is_dir = (\<lambda>p. Some (lookup_dir (dir_tree ds) p \<noteq> None)),
      path_resolve = (\<lambda>p. Some (realpath p)),
      normpath = posix_normpath,
      iterdir = (\<lambda>p. map_option (children (dir_tree ds)) (lookup_dir (dir_tree ds) p)),
      home = ''/Users/dave''\<rparr>"

section \<open>Notions of the specification and example inputs\<close>

text \<open>
  The remaining definitions are not code of the program. \<open>strict_ancestor_dir\<close> is the
  specification's ancestor relation on path components; \<open>first_at\<close> and \<open>dup_inv\<close> state
  the invariant of the duplicate pass; \<open>within_limit\<close> is the invariant of the
  suggestion loops; \<open>snapshot_entries\<close>, \<open>current_entries\<close>, \<open>returned\<close>,
  \<open>outcome_state\<close> and \<open>session_view\<close> read results. \<open>run_session\<close> is a run of the
  program from the first snapshot in \<^verbatim>\<open>main\<close> to the return of the fixer, on a file
  system, a value of \<^verbatim>\<open>PATH\<close> and the lines typed. The other constants are the
  concrete inputs of the examples.
\<close>

definition strict_ancestor_dir :: "string \<Rightarrow> string \<Rightarrow> bool" where
  "strict_ancestor_dir a b =
     (a \<noteq> b \<and> strict_prefix (path_components (rstrip_sep a)) (path_components b))"

definition first_at :: "entry list \<Rightarrow> string \<Rightarrow> nat \<Rightarrow> bool" where
  "first_at es n j = (j < length es \<and> normalized (es ! j) = n \<and> (\<forall>j'<j. normalized (es ! j') \<noteq> n))"

definition dup_inv :: "(string \<rightharpoonup> int) \<Rightarrow> entry list \<Rightarrow> bool" where
  "dup_inv seen es =
     ((\<forall>i<length es. index (es ! i) = int i + 1 \<and> shadowed_by (es ! i) = None) \<and>
      (\<forall>n. case seen n of
              Some k \<Rightarrow> (\<exists>j. k = int j + 1 \<and> first_at es n j)
            | None \<Rightarrow> (\<forall>j<length es. normalized (es ! j) \<noteq> n)) \<and>
      (\<forall>i<length es. case duplicate_of (es ! i) of
              Some k \<Rightarrow> (\<exists>j<i. k = int j + 1 \<and> first_at es (normalized (es ! i)) j)
            | None \<Rightarrow> (\<forall>j<i. normalized (es ! j) \<noteq> normalized (es ! i))))"

definition snapshot_entries ::
  "error + (string \<times> entry list \<times> (string \<times> entry list) list) \<Rightarrow> entry list" where
  "snapshot_entries r = (case r of Inl _ \<Rightarrow> [] | Inr (_, es, _) \<Rightarrow> es)"

definition env_of_path :: "string \<Rightarrow> environ" where
  "env_of_path v = Map.empty(''PATH'' \<mapsto> v)"

definition mkdir_denied :: mkdir where
  "mkdir_denied d p = (Some ''Permission denied'', d)"


definition current_entries :: "fs \<Rightarrow> environ \<Rightarrow> string list \<Rightarrow> entry list" where
  "current_entries d environ ps =
     (case fst (reanalyze_with d environ (rebuild_path ps)) of Inl _ \<Rightarrow> [] | Inr (_, es) \<Rightarrow> es)"



definition within_limit :: "int \<Rightarrow> string list \<Rightarrow> string list flow \<Rightarrow> bool" where
  "within_limit limit suggestions r =
     (case r of
        Next s \<Rightarrow> int (length s) < limit \<and> prefix suggestions s
      | Return s \<Rightarrow> int (length s) \<le> limit \<and> prefix suggestions s
      | Raise err \<Rightarrow> True)"

definition run_session ::
  "mkdir \<Rightarrow> fs \<Rightarrow> string \<Rightarrow> string list \<Rightarrow>
     ((error + string \<times> entry list) \<times> environ \<times> fix_state) option" where
  "run_session mk d raw_path inputs =
     (case analyze_path d (env_of_path raw_path) of
        Inl err \<Rightarrow> None
      | Inr (raw0, entries, _) \<Rightarrow>
          interactive_fix_broken_paths mk (Suc (length inputs)) (env_of_path raw_path) raw0 entries
            \<lparr>cur_parts = [], logged = [], stdin = inputs, disk = d\<rparr>)"

definition session_view ::
  "((error + string \<times> entry list) \<times> environ \<times> fix_state) option \<Rightarrow>
     (string \<times> bool list \<times> string list \<times> log_record list) option" where
  "session_view r =
     (case r of
        Some (Inr (new_raw, new_entries), env, st) \<Rightarrow>
          Some (new_raw, map is_broken new_entries, cur_parts st, logged st)
      | _ \<Rightarrow> None)"

definition fs_usr :: fs where
  "fs_usr = fs_of_dirs [''/usr/bin'', ''/tmp'']"

definition fs_colon :: fs where
  "fs_colon = fs_of_dirs [''/a'', ''/a:b'', ''/usr/bin'']"

definition fs_trailing :: fs where
  "fs_trailing = fs_of_dirs [''/tmp/x:'']"

definition fs_self :: fs where
  "fs_self = fs_of_dirs [''/gone:$PATH'']"

definition scenario_A :: "error + (string \<times> entry list \<times> (string \<times> entry list) list)" where
  "scenario_A = analyze_path fs_usr (env_of_path ''/usr/bin:/usr/bin:/nonexistent/toolbin'')"

definition scenario_nested :: "error + (string \<times> entry list \<times> (string \<times> entry list) list)" where
  "scenario_nested = analyze_path (fs_of_dirs []) (env_of_path ''/a:/a/b:/a/b/c'')"

definition scenario_chain :: "error + (string \<times> entry list \<times> (string \<times> entry list) list)" where
  "scenario_chain = analyze_path (fs_of_dirs []) (env_of_path ''/x:/x/y:/x/y/z'')"



section \<open>Lemmas\<close>

lemma split_not_Nil: "split c s \<noteq> []"
  by (induction s) (auto split: list.splits)

lemma join_Cons: "ws \<noteq> [] \<Longrightarrow> join c (w # ws) = w @ c # join c ws"
  by (cases ws) auto

lemma join_split: "join c (split c s) = s"
proof (induction s)
  case Nil show ?case by simp
next
  case (Cons x xs)
  show ?case
  proof (cases "x = c")
    case True
    then show ?thesis using Cons split_not_Nil[of c xs] by (simp add: join_Cons)
  next
    case False
    obtain w ws where sp: "split c xs = w # ws" using split_not_Nil[of c xs] by (cases "split c xs") auto
    then show ?thesis using Cons False by (cases ws) auto
  qed
qed

lemma split_no_sep: "c \<notin> set w \<Longrightarrow> split c w = [w]"
  by (induction w) auto

lemma split_append_sep: "c \<notin> set w \<Longrightarrow> split c (w @ c # r) = w # split c r"
  by (induction w) auto

lemma split_append: "split c (a @ c # r) = split c a @ split c r"
proof (induction a)
  case Nil show ?case by simp
next
  case (Cons x xs)
  obtain w ws where sp: "split c xs = w # ws" using split_not_Nil[of c xs] by (cases "split c xs") auto
  then show ?case using Cons by auto
qed

lemma split_join: "ws \<noteq> [] \<Longrightarrow> \<forall>w\<in>set ws. c \<notin> set w \<Longrightarrow> split c (join c ws) = ws"
proof (induction ws)
  case Nil then show ?case by simp
next
  case (Cons w ws)
  show ?case
  proof (cases ws)
    case Nil then show ?thesis using Cons.prems by (simp add: split_no_sep)
  next
    case (Cons v vs)
    then show ?thesis using Cons.prems Cons.IH by (simp add: split_append_sep)
  qed
qed

lemma join_append: "xs \<noteq> [] \<Longrightarrow> ys \<noteq> [] \<Longrightarrow> join c (xs @ ys) = join c xs @ c # join c ys"
proof (induction xs)
  case Nil then show ?case by simp
next
  case (Cons x xs)
  then show ?case by (cases xs) (auto simp: join_Cons)
qed

lemma split_elems_no_sep: "w \<in> set (split c s) \<Longrightarrow> c \<notin> set w"
proof (induction s arbitrary: w)
  case Nil then show ?case by simp
next
  case (Cons x xs)
  then show ?case by (auto split: if_splits list.splits)
qed

lemma join_eq_Nil: "\<forall>w\<in>set ws. w \<noteq> [] \<Longrightarrow> join c ws = [] \<longleftrightarrow> ws = []"
  by (induction c ws rule: join.induct) auto

lemma prefix_sep_iff_components:
  "prefix (a @ [c]) b \<longleftrightarrow> strict_prefix (split c a) (split c b)"
proof
  assume "prefix (a @ [c]) b"
  then obtain r where "b = a @ c # r" by (auto simp: prefix_def)
  then show "strict_prefix (split c a) (split c b)"
    using split_not_Nil[of c r] by (simp add: split_append strict_prefix_def)
next
  assume "strict_prefix (split c a) (split c b)"
  then obtain more where m: "split c b = split c a @ more" "more \<noteq> []"
    by (auto simp: strict_prefix_def prefix_def)
  have "b = join c (split c b)" by (simp add: join_split)
  also have "\<dots> = join c (split c a) @ c # join c more"
    using m split_not_Nil[of c a] by (simp add: join_append)
  finally show "prefix (a @ [c]) b" by (simp add: join_split prefix_def)
qed

lemma is_within_iff: "is_within a b \<longleftrightarrow> strict_ancestor_dir a b"
  by (auto simp: is_within_def strict_ancestor_dir_def path_components_def prefix_sep_iff_components)

lemma first_at_append: "first_at es n j \<Longrightarrow> first_at (es @ [x]) n j"
  by (auto simp: first_at_def nth_append)

lemma first_at_new:
  "\<forall>j<length es. normalized (es ! j) \<noteq> normalized x \<Longrightarrow> first_at (es @ [x]) (normalized x) (length es)"
  by (auto simp: first_at_def nth_append)

lemma dup_inv_empty: "dup_inv Map.empty []"
  by (simp add: dup_inv_def)

lemma dup_inv_step_seen:
  assumes inv: "dup_inv seen es" and s: "seen (normalized x) = Some k"
    and x: "index x = int (length es) + 1" "shadowed_by x = None" "duplicate_of x = Some k"
  shows "dup_inv seen (es @ [x])"
proof -
  have A: "\<forall>i<length (es @ [x]). index ((es @ [x]) ! i) = int i + 1 \<and> shadowed_by ((es @ [x]) ! i) = None"
    using inv x by (auto simp: dup_inv_def nth_append less_Suc_eq)
  have B: "case seen n of
              Some k \<Rightarrow> (\<exists>j. k = int j + 1 \<and> first_at (es @ [x]) n j)
            | None \<Rightarrow> (\<forall>j<length (es @ [x]). normalized ((es @ [x]) ! j) \<noteq> n)" for n
  proof -
    from inv have sn: "case seen n of
              Some k \<Rightarrow> (\<exists>j. k = int j + 1 \<and> first_at es n j)
            | None \<Rightarrow> (\<forall>j<length es. normalized (es ! j) \<noteq> n)" by (simp add: dup_inv_def)
    show ?thesis
    proof (cases "seen n")
      case None
      then have "n \<noteq> normalized x" using s by auto
      then show ?thesis using None sn by (auto simp: nth_append less_Suc_eq)
    next
      case (Some k')
      then show ?thesis using sn first_at_append by auto
    qed
  qed
  have C: "case duplicate_of ((es @ [x]) ! i) of
              Some k \<Rightarrow> (\<exists>j<i. k = int j + 1 \<and> first_at (es @ [x]) (normalized ((es @ [x]) ! i)) j)
            | None \<Rightarrow> (\<forall>j<i. normalized ((es @ [x]) ! j) \<noteq> normalized ((es @ [x]) ! i))"
    if i: "i < length (es @ [x])" for i
  proof (cases "i < length es")
    case True
    from inv True have "case duplicate_of (es ! i) of
              Some k \<Rightarrow> (\<exists>j<i. k = int j + 1 \<and> first_at es (normalized (es ! i)) j)
            | None \<Rightarrow> (\<forall>j<i. normalized (es ! j) \<noteq> normalized (es ! i))" by (simp add: dup_inv_def)
    then show ?thesis using True first_at_append
      by (auto simp: nth_append split: option.splits)
  next
    case False
    then have ie: "i = length es" using i by simp
    from inv have "case seen (normalized x) of
              Some k \<Rightarrow> (\<exists>j. k = int j + 1 \<and> first_at es (normalized x) j)
            | None \<Rightarrow> (\<forall>j<length es. normalized (es ! j) \<noteq> normalized x)" by (simp add: dup_inv_def)
    with s obtain j where j: "k = int j + 1" "first_at es (normalized x) j" by auto
    then have "j < length es" by (simp add: first_at_def)
    then show ?thesis using ie x j first_at_append by (auto simp: nth_append)
  qed
  show ?thesis unfolding dup_inv_def using A B C by blast
qed

lemma dup_inv_step_new:
  assumes inv: "dup_inv seen es" and s: "seen (normalized x) = None"
    and x: "index x = int (length es) + 1" "shadowed_by x = None" "duplicate_of x = None"
  shows "dup_inv (seen(normalized x \<mapsto> int (length es) + 1)) (es @ [x])"
proof -
  from inv have "case seen (normalized x) of
              Some k \<Rightarrow> (\<exists>j. k = int j + 1 \<and> first_at es (normalized x) j)
            | None \<Rightarrow> (\<forall>j<length es. normalized (es ! j) \<noteq> normalized x)" by (simp add: dup_inv_def)
  with s have fresh: "\<forall>j<length es. normalized (es ! j) \<noteq> normalized x" by simp
  have A: "\<forall>i<length (es @ [x]). index ((es @ [x]) ! i) = int i + 1 \<and> shadowed_by ((es @ [x]) ! i) = None"
    using inv x by (auto simp: dup_inv_def nth_append less_Suc_eq)
  have B: "case (seen(normalized x \<mapsto> int (length es) + 1)) n of
              Some k \<Rightarrow> (\<exists>j. k = int j + 1 \<and> first_at (es @ [x]) n j)
            | None \<Rightarrow> (\<forall>j<length (es @ [x]). normalized ((es @ [x]) ! j) \<noteq> n)" for n
  proof -
    from inv have sn: "case seen n of
              Some k \<Rightarrow> (\<exists>j. k = int j + 1 \<and> first_at es n j)
            | None \<Rightarrow> (\<forall>j<length es. normalized (es ! j) \<noteq> n)" by (simp add: dup_inv_def)
    show ?thesis
    proof (cases "n = normalized x")
      case True
      then show ?thesis using first_at_new[OF fresh] by auto
    next
      case False
      then show ?thesis using sn first_at_append
        by (auto simp: nth_append less_Suc_eq split: option.splits)
    qed
  qed
  have C: "case duplicate_of ((es @ [x]) ! i) of
              Some k \<Rightarrow> (\<exists>j<i. k = int j + 1 \<and> first_at (es @ [x]) (normalized ((es @ [x]) ! i)) j)
            | None \<Rightarrow> (\<forall>j<i. normalized ((es @ [x]) ! j) \<noteq> normalized ((es @ [x]) ! i))"
    if i: "i < length (es @ [x])" for i
  proof (cases "i < length es")
    case True
    from inv True have "case duplicate_of (es ! i) of
              Some k \<Rightarrow> (\<exists>j<i. k = int j + 1 \<and> first_at es (normalized (es ! i)) j)
            | None \<Rightarrow> (\<forall>j<i. normalized (es ! j) \<noteq> normalized (es ! i))" by (simp add: dup_inv_def)
    then show ?thesis using True first_at_append
      by (auto simp: nth_append split: option.splits)
  next
    case False
    then have ie: "i = length es" using i by simp
    then show ?thesis using x fresh by (auto simp: nth_append)
  qed
  show ?thesis unfolding dup_inv_def using A B C by blast
qed

lemma analyze_loop_inv:
  "analyze_loop fs environ idx rest seen es = Inr res \<Longrightarrow> idx = int (length es) + 1 \<Longrightarrow> dup_inv seen es
     \<Longrightarrow> \<exists>seen'. dup_inv seen' res"
proof (induction rest arbitrary: idx seen es)
  case Nil
  then show ?case by auto
next
  case (Cons r rest)
  from Cons.prems(1) obtain ex nrm xs isd where ex: "expand fs environ r = Some ex"
    and nrm: "normalize_dir fs environ r = Inr nrm"
    and xs: "path_exists fs ex = Some xs"
    and isd: "(if xs then path_is_dir fs ex else Some False) = Some isd"
    by (auto split: option.splits sum.splits)
  define x where "x = \<lparr>index = idx, raw = r, expanded = ex, normalized = nrm,
      exists = xs, is_dir = isd,
      category = fst (classify (home fs) nrm), reason = snd (classify (home fs) nrm),
      duplicate_of = seen nrm, shadowed_by = None\<rparr>"
  define seen' where "seen' = (case seen nrm of Some _ \<Rightarrow> seen | None \<Rightarrow> seen(nrm \<mapsto> idx))"
  have rec: "analyze_loop fs environ (idx + 1) rest seen' (es @ [x]) = Inr res"
    using Cons.prems(1) ex nrm xs isd by (simp add: x_def seen'_def Let_def case_prod_beta)
  have xf: "index x = int (length es) + 1" "shadowed_by x = None" "normalized x = nrm" "duplicate_of x = seen nrm"
    using Cons.prems(2) by (simp_all add: x_def)
  have "dup_inv seen' (es @ [x])"
  proof (cases "seen nrm")
    case None
    then show ?thesis using dup_inv_step_new[OF Cons.prems(3), of x] xf Cons.prems(2)
      by (simp add: seen'_def)
  next
    case (Some k)
    then show ?thesis using dup_inv_step_seen[OF Cons.prems(3), of x k] xf
      by (simp add: seen'_def)
  qed
  then show ?case using Cons.IH[OF rec] Cons.prems(2) by simp
qed

lemma length_compute_shadowing: "length (compute_shadowing es) = length es"
  by (simp add: compute_shadowing_def)

lemma nth_compute_shadowing:
  "i < length es \<Longrightarrow> compute_shadowing es ! i =
     (case shadow_scan (normalized (es ! i)) (take i (zip (map normalized es) es)) of
        Some k \<Rightarrow> (es ! i)\<lparr>shadowed_by := Some k\<rparr>
      | None \<Rightarrow> es ! i)"
  by (simp add: compute_shadowing_def nth_enumerate_eq)

lemma compute_shadowing_fields:
  "i < length es \<Longrightarrow>
     index (compute_shadowing es ! i) = index (es ! i) \<and>
     normalized (compute_shadowing es ! i) = normalized (es ! i) \<and>
     duplicate_of (compute_shadowing es ! i) = duplicate_of (es ! i) \<and>
     raw (compute_shadowing es ! i) = raw (es ! i) \<and>
     exists (compute_shadowing es ! i) = exists (es ! i) \<and>
     is_dir (compute_shadowing es ! i) = is_dir (es ! i)"
  by (simp add: nth_compute_shadowing split: option.splits)

lemma shadow_scan_Some:
  "shadow_scan b xs = Some k \<Longrightarrow>
     \<exists>j<length xs. k = index (snd (xs ! j)) \<and> is_within (fst (xs ! j)) b \<and>
        (\<forall>j'<j. \<not> is_within (fst (xs ! j')) b)"
proof (induction xs)
  case Nil then show ?case by simp
next
  case (Cons x xs)
  obtain a ej where x: "x = (a, ej)" by (cases x)
  show ?case
  proof (cases "is_within a b")
    case True
    then have "k = index ej" using Cons.prems x by simp
    then show ?thesis using True x by (intro exI[of _ 0]) simp
  next
    case False
    then have "shadow_scan b xs = Some k" using Cons.prems x by simp
    from Cons.IH[OF this] obtain j where j: "j < length xs" "k = index (snd (xs ! j))"
      "is_within (fst (xs ! j)) b" "\<forall>j'<j. \<not> is_within (fst (xs ! j')) b" by blast
    have "\<forall>j'<Suc j. \<not> is_within (fst ((x # xs) ! j')) b"
    proof (intro allI impI)
      fix j' assume "j' < Suc j"
      then show "\<not> is_within (fst ((x # xs) ! j')) b"
        using j(4) False x by (cases j') auto
    qed
    then show ?thesis using j by (intro exI[of _ "Suc j"]) simp
  qed
qed

lemma shadow_scan_None:
  "shadow_scan b xs = None \<Longrightarrow> j < length xs \<Longrightarrow> \<not> is_within (fst (xs ! j)) b"
proof (induction xs arbitrary: j)
  case Nil then show ?case by simp
next
  case (Cons x xs)
  obtain a ej where x: "x = (a, ej)" by (cases x)
  from Cons.prems x have nw: "\<not> is_within a b" and rest: "shadow_scan b xs = None"
    by (auto split: if_splits)
  show ?case using Cons.IH[OF rest] Cons.prems(2) nw x by (cases j) auto
qed

lemma first_at_compute_shadowing: "first_at (compute_shadowing es) n j = first_at es n j"
  by (auto simp: first_at_def length_compute_shadowing compute_shadowing_fields)

lemma analyze_path_entries:
  assumes "analyze_path fs environ = Inr (raw_path, entries, grouped)"
  obtains es0 seen' where "dup_inv seen' es0" "entries = compute_shadowing es0"
proof -
  from assms obtain es0 where
    l: "analyze_loop fs environ 1 (split_path (environ_get environ ''PATH'' [])) Map.empty [] = Inr es0"
    and e: "entries = compute_shadowing es0"
    by (auto simp: analyze_path_def Let_def split: sum.splits)
  from analyze_loop_inv[OF l _ dup_inv_empty] obtain seen' where "dup_inv seen' es0" by auto
  with e that show thesis by blast
qed

lemma snapshot_index:
  assumes "analyze_path fs environ = Inr (raw_path, entries, grouped)" and "i < length entries"
  shows "index (entries ! i) = int i + 1"
proof -
  from assms(1) obtain es0 seen' where inv: "dup_inv seen' es0" and e: "entries = compute_shadowing es0"
    by (rule analyze_path_entries)
  have i: "i < length es0" using assms(2) e by (simp add: length_compute_shadowing)
  then show ?thesis using inv e by (simp add: compute_shadowing_fields dup_inv_def)
qed

lemma snapshot_duplicate_of:
  assumes "analyze_path fs environ = Inr (raw_path, entries, grouped)" and "i < length entries"
  shows "case duplicate_of (entries ! i) of
           Some k \<Rightarrow> (\<exists>j<i. k = int j + 1 \<and> first_at entries (normalized (entries ! i)) j)
         | None \<Rightarrow> (\<forall>j<i. normalized (entries ! j) \<noteq> normalized (entries ! i))"
proof -
  from assms(1) obtain es0 seen' where inv: "dup_inv seen' es0" and e: "entries = compute_shadowing es0"
    by (rule analyze_path_entries)
  have i: "i < length es0" using assms(2) e by (simp add: length_compute_shadowing)
  from inv i have "case duplicate_of (es0 ! i) of
           Some k \<Rightarrow> (\<exists>j<i. k = int j + 1 \<and> first_at es0 (normalized (es0 ! i)) j)
         | None \<Rightarrow> (\<forall>j<i. normalized (es0 ! j) \<noteq> normalized (es0 ! i))"
    by (simp add: dup_inv_def)
  then show ?thesis using i unfolding e
    by (auto simp: compute_shadowing_fields first_at_compute_shadowing split: option.splits)
qed

lemma snapshot_shadowed_by:
  assumes "analyze_path fs environ = Inr (raw_path, entries, grouped)" and "i < length entries"
  shows "case shadowed_by (entries ! i) of
           Some k \<Rightarrow> (\<exists>j<i. k = int j + 1 \<and> is_within (normalized (entries ! j)) (normalized (entries ! i)) \<and>
                        (\<forall>j'<j. \<not> is_within (normalized (entries ! j')) (normalized (entries ! i))))
         | None \<Rightarrow> (\<forall>j<i. \<not> is_within (normalized (entries ! j)) (normalized (entries ! i)))"
proof -
  from assms(1) obtain es0 seen' where inv: "dup_inv seen' es0" and e: "entries = compute_shadowing es0"
    by (rule analyze_path_entries)
  have i: "i < length es0" using assms(2) e by (simp add: length_compute_shadowing)
  define xs where "xs = take i (zip (map normalized es0) es0)"
  have lx: "length xs = i" using i by (simp add: xs_def)
  have nx: "xs ! j = (normalized (es0 ! j), es0 ! j)" if "j < i" for j
    using that i by (simp add: xs_def)
  have nrm: "normalized (entries ! j) = normalized (es0 ! j)" if "j \<le> i" for j
    using that i e by (simp add: compute_shadowing_fields)
  have idx: "index (es0 ! j) = int j + 1" if "j < i" for j
    using that i inv by (simp add: dup_inv_def)
  have none0: "shadowed_by (es0 ! i) = None" using inv i by (simp add: dup_inv_def)
  show ?thesis
  proof (cases "shadow_scan (normalized (es0 ! i)) xs")
    case None
    then have "shadowed_by (entries ! i) = None"
      using i none0 e by (simp add: nth_compute_shadowing xs_def)
    moreover have "\<not> is_within (normalized (entries ! j)) (normalized (entries ! i))" if "j < i" for j
      using shadow_scan_None[OF None, of j] that lx nx nrm by simp
    ultimately show ?thesis by simp
  next
    case (Some k)
    then have sb: "shadowed_by (entries ! i) = Some k"
      using i e by (simp add: nth_compute_shadowing xs_def)
    from shadow_scan_Some[OF Some] obtain j where j: "j < length xs" "k = index (snd (xs ! j))"
      "is_within (fst (xs ! j)) (normalized (es0 ! i))"
      "\<forall>j'<j. \<not> is_within (fst (xs ! j')) (normalized (es0 ! i))" by blast
    have ji: "j < i" using j(1) lx by simp
    have "k = int j + 1" using j(2) ji nx idx by simp
    moreover have "is_within (normalized (entries ! j)) (normalized (entries ! i))"
      using j(3) ji nx nrm by simp
    moreover have "\<not> is_within (normalized (entries ! j')) (normalized (entries ! i))" if "j' < j" for j'
    proof -
      have "j' < i" using that ji by simp
      moreover have "\<not> is_within (fst (xs ! j')) (normalized (es0 ! i))" using j(4) that by blast
      ultimately show ?thesis using nx[of j'] nrm[of j'] nrm[of i] by simp
    qed
    ultimately show ?thesis using sb ji by auto
  qed
qed

lemma lower_Cellar: "lower ''/Cellar/'' = ''/cellar/''"
  by code_simp

lemma sublist_lower: "sublist x p \<Longrightarrow> sublist (lower x) (lower p)"
proof -
  assume "sublist x p"
  then obtain ps ss where "p = ps @ x @ ss" by (auto simp: sublist_def)
  then have "lower p = lower ps @ lower x @ lower ss" by (simp add: lower_def)
  then show ?thesis by (simp add: sublist_def) blast
qed

lemma cellar_test: "(sublist ''/Cellar/'' p \<or> sublist ''/cellar/'' (lower p)) = sublist ''/cellar/'' (lower p)"
  using sublist_lower[of "''/Cellar/''" p] by (auto simp: lower_Cellar)

lemma first_match_append_None: "first_match (r # rs) p = (case r p of Some res \<Rightarrow> res | None \<Rightarrow> first_match rs p)"
  by simp

lemma first_match_buckets:
  "first_match (map bucket_rule bs @ rs) p =
     (case classify_buckets (lower p) bs of Some r \<Rightarrow> r | None \<Rightarrow> first_match rs p)"
proof (induction bs)
  case Nil show ?case by simp
next
  case (Cons b bs)
  obtain cat needles where b: "b = (cat, needles)" by (cases b)
  show ?case using Cons by (simp add: b bucket_rule_def split: option.splits)
qed

lemma analyze_path_unset:
  "environ ''PATH'' = None \<Longrightarrow> analyze_path fs environ = Inr ([], [], [])"
  by (simp add: analyze_path_def environ_get_def split_path_def compute_shadowing_def
      group_by_category_def enumerate_eq_zip)

lemma split_path_rebuild_path:
  assumes "\<forall>p\<in>set ps. p \<noteq> [] \<and> os_pathsep \<notin> set p"
  shows "split_path (rebuild_path ps) = ps"
proof (cases "ps = []")
  case True
  then show ?thesis by (simp add: split_path_def rebuild_path_def)
next
  case False
  have f: "filter (\<lambda>p. p \<noteq> []) ps = ps" using assms by (simp add: filter_id_conv)
  have "join os_pathsep ps \<noteq> []" using False assms join_eq_Nil[of ps os_pathsep] by auto
  then show ?thesis using False assms
    by (simp add: split_path_def rebuild_path_def f split_join)
qed

lemma split_path_no_sep: "p \<in> set (split_path s) \<Longrightarrow> os_pathsep \<notin> set p"
  by (auto simp: split_path_def dest: split_elems_no_sep split: if_splits)

lemma reanalyze_with_fst:
  "fst (reanalyze_with fs environ pv) =
     (case analyze_loop fs (environ(''PATH'' \<mapsto> pv)) 1 (split_path pv) Map.empty [] of
        Inl err \<Rightarrow> Inl err
      | Inr es0 \<Rightarrow> Inr (pv, compute_shadowing es0))"
  by (simp add: reanalyze_with_def analyze_path_def Let_def environ_get_def split: sum.splits)





lemma snapshot_Inr:
  "snapshot_entries r \<noteq> [] \<Longrightarrow> \<exists>raw_path g. r = Inr (raw_path, snapshot_entries r, g)"
  by (cases r) (auto simp: snapshot_entries_def)

lemma map_eq_nth: "map f xs = ys \<Longrightarrow> i < length ys \<Longrightarrow> i < length xs \<and> f (xs ! i) = ys ! i"
  by (metis length_map nth_map)

lemma within_limit_Next: "int (length s) < limit \<Longrightarrow> within_limit limit s (Next s)"
  by (simp add: within_limit_def)

lemma within_limit_prefix:
  "within_limit limit (suggestions @ [s]) r \<Longrightarrow> within_limit limit suggestions r"
  by (auto simp: within_limit_def split: flow.splits dest: append_prefixD)

lemma within_limit_Return:
  "int (length suggestions) < limit \<Longrightarrow> within_limit limit suggestions (Return (suggestions @ [s]))"
  by (simp add: within_limit_def)

lemma sibling_loop_bound:
  "int (length suggestions) < limit \<Longrightarrow>
     within_limit limit suggestions (sibling_loop fs anc t limit cs suggestions)"
proof (induction cs arbitrary: suggestions)
  case Nil
  then show ?case by (simp add: within_limit_Next)
next
  case (Cons c cs)
  let ?child = "path_child anc c"
  show ?case
  proof (cases "path_is_dir fs (path_str ?child)")
    case None
    then have "sibling_loop fs anc t limit (c # cs) suggestions = Next suggestions"
      by (simp add: Let_def)
    then show ?thesis using Cons.prems by (simp add: within_limit_Next)
  next
    case (Some isd)
    show ?thesis
    proof (cases "isd \<and> t \<noteq> [] \<and>
        (path_name ?child = t \<or> prefix t (path_name ?child) \<or> prefix (path_name ?child) t)")
      case False
      then have "sibling_loop fs anc t limit (c # cs) suggestions = sibling_loop fs anc t limit cs suggestions"
        using Some by (auto simp: Let_def split: bool.splits)
      then show ?thesis using Cons.IH[OF Cons.prems] by simp
    next
      case True
      show ?thesis
      proof (cases "path_resolve fs (path_str ?child)")
        case None
        then have "sibling_loop fs anc t limit (c # cs) suggestions = Next suggestions"
          using True Some by (auto simp: Let_def)
        then show ?thesis using Cons.prems by (simp add: within_limit_Next)
      next
        case rs: (Some s)
        show ?thesis
        proof (cases "limit \<le> int (length (suggestions @ [s]))")
          case full: True
          then have "sibling_loop fs anc t limit (c # cs) suggestions = Return (suggestions @ [s])"
            using True Some rs by (auto simp: Let_def)
          then show ?thesis using Cons.prems by (simp add: within_limit_Return)
        next
          case room: False
          then have eq: "sibling_loop fs anc t limit (c # cs) suggestions =
              sibling_loop fs anc t limit cs (suggestions @ [s])"
            using True Some rs by (auto simp: Let_def)
          from room have "int (length (suggestions @ [s])) < limit" by simp
          from Cons.IH[OF this] show ?thesis unfolding eq by (rule within_limit_prefix)
        qed
      qed
    qed
  qed
qed

lemma candidate_loop_bound:
  "int (length suggestions) < limit \<Longrightarrow>
     within_limit limit suggestions (candidate_loop fs cur limit cs suggestions)"
proof (induction cs arbitrary: suggestions)
  case Nil
  then show ?case by (simp add: within_limit_Next)
next
  case (Cons c cs)
  let ?cand = "path_child cur c"
  show ?case
  proof (cases "exists_and_is_dir fs (path_str ?cand)")
    case None
    then have "candidate_loop fs cur limit (c # cs) suggestions = Raise OSError"
      by (simp add: Let_def)
    then show ?thesis by (simp add: within_limit_def)
  next
    case (Some b)
    show ?thesis
    proof (cases b)
      case False
      then have "candidate_loop fs cur limit (c # cs) suggestions = candidate_loop fs cur limit cs suggestions"
        using Some by (simp add: Let_def)
      then show ?thesis using Cons.IH[OF Cons.prems] by simp
    next
      case True
      show ?thesis
      proof (cases "path_resolve fs (path_str ?cand)")
        case None
        then have "candidate_loop fs cur limit (c # cs) suggestions = Raise OSError"
          using True Some by (simp add: Let_def)
        then show ?thesis by (simp add: within_limit_def)
      next
        case rs: (Some s)
        show ?thesis
        proof (cases "s \<in> set suggestions")
          case dup: True
          then have "candidate_loop fs cur limit (c # cs) suggestions = candidate_loop fs cur limit cs suggestions"
            using True Some rs by (simp add: Let_def)
          then show ?thesis using Cons.IH[OF Cons.prems] by simp
        next
          case new: False
          show ?thesis
          proof (cases "limit \<le> int (length (suggestions @ [s]))")
            case full: True
            then have "candidate_loop fs cur limit (c # cs) suggestions = Return (suggestions @ [s])"
              using True Some rs new by (simp add: Let_def)
            then show ?thesis using Cons.prems by (simp add: within_limit_Return)
          next
            case room: False
            then have eq: "candidate_loop fs cur limit (c # cs) suggestions =
                candidate_loop fs cur limit cs (suggestions @ [s])"
              using True Some rs new by (simp add: Let_def)
            from room have "int (length (suggestions @ [s])) < limit" by simp
            from Cons.IH[OF this] show ?thesis unfolding eq by (rule within_limit_prefix)
          qed
        qed
      qed
    qed
  qed
qed

lemma within_limit_trans:
  "prefix a b \<Longrightarrow> within_limit limit b r \<Longrightarrow> within_limit limit a r"
  by (auto simp: within_limit_def split: flow.splits)

lemma ancestor_walk_bound:
  "int (length suggestions) < limit \<Longrightarrow>
     within_limit limit suggestions (ancestor_walk fs limit n cur suggestions)"
proof (induction n arbitrary: cur suggestions)
  case 0
  then show ?case by (simp add: within_limit_Next)
next
  case (Suc n)
  define r where "r = (case exists_and_is_dir fs (path_str cur) of
              None \<Rightarrow> Raise OSError
            | Some True \<Rightarrow> candidate_loop fs cur limit [''bin'', ''sbin''] suggestions
            | Some False \<Rightarrow> Next suggestions)"
  have wr: "within_limit limit suggestions r"
  proof (cases "exists_and_is_dir fs (path_str cur)")
    case None
    then show ?thesis by (simp add: r_def within_limit_def)
  next
    case (Some b)
    then show ?thesis
      using candidate_loop_bound[OF Suc.prems, of fs cur "[''bin'', ''sbin'']"]
        within_limit_Next[OF Suc.prems]
      by (cases b) (simp_all add: r_def del: candidate_loop.simps)
  qed
  have eq: "ancestor_walk fs limit (Suc n) cur suggestions =
      (case r of
         Next suggestions' \<Rightarrow>
           if path_parent cur = cur then Next suggestions'
           else ancestor_walk fs limit n (path_parent cur) suggestions'
       | Return x \<Rightarrow> Return x
       | Raise err \<Rightarrow> Raise err)"
    by (simp add: r_def del: candidate_loop.simps)
  show ?case
  proof (cases r)
    case (Next s)
    then have s: "int (length s) < limit" "prefix suggestions s" using wr by (simp_all add: within_limit_def)
    show ?thesis
    proof (cases "path_parent cur = cur")
      case True
      then show ?thesis using eq Next wr by simp
    next
      case False
      then have "ancestor_walk fs limit (Suc n) cur suggestions = ancestor_walk fs limit n (path_parent cur) s"
        using eq Next by simp
      then show ?thesis using within_limit_trans[OF s(2) Suc.IH[OF s(1)]] by simp
    qed
  next
    case (Return x)
    then show ?thesis using eq wr by simp
  next
    case (Raise err)
    then show ?thesis using eq by (simp add: within_limit_def)
  qed
qed

lemma py_slice_to_bound: "0 \<le> limit \<Longrightarrow> int (length (py_slice_to xs limit)) \<le> limit"
  by (simp add: py_slice_to_def)

lemma py_slice_to_prefix: "0 \<le> limit \<Longrightarrow> prefix (py_slice_to xs limit) xs"
  by (simp add: py_slice_to_def take_is_prefix)

lemma reanalyze_with_raw:
  "reanalyze_with fs environ pv = (Inr (new_raw, new_entries), env') \<Longrightarrow> new_raw = pv"
  using reanalyze_with_fst[of fs environ pv] by (auto split: sum.splits)

lemma initial_parts_clean: "\<forall>p\<in>set (initial_parts raw_path). p \<noteq> [] \<and> os_pathsep \<notin> set p"
  by (auto simp: initial_parts_def dest: split_path_no_sep)

lemma session_quit:
  assumes b: "filter is_broken entries \<noteq> []"
    and inp: "stdin st = line # rest" "lower (strip line) = ''q''"
  shows "\<exists>r env' st'.
           interactive_fix_broken_paths mk (Suc n) env raw_path entries st = Some (r, env', st') \<and>
           cur_parts st' = initial_parts raw_path \<and>
           (case r of
              Inl err \<Rightarrow> True
            | Inr (new_raw, new_entries) \<Rightarrow> new_raw = rebuild_path (initial_parts raw_path))"
proof -
  have q: "fix_loop mk (Suc n) e0 (st\<lparr>cur_parts := P, logged := L\<rparr>) =
      Some (None, e0, st\<lparr>cur_parts := P, logged := L @ [QUIT], stdin := rest\<rparr>)" for e0 P L
    using inp by (simp add: Let_def)
  show ?thesis using b
    by (auto simp: interactive_fix_broken_paths_def Let_def q simp del: fix_loop.simps
        split: sum.splits prod.splits dest: reanalyze_with_raw)
qed
section \<open>C1: duplicates point back to the first occurrence\<close>

text \<open>
  Claim C1. In every snapshot built by \<^verbatim>\<open>analyze_path\<close>, an entry \<open>e\<close> with
  \<open>duplicate_of e = Some k\<close> has \<open>k < index e\<close>; the entry with index \<open>k\<close> (at
  position \<open>k - 1\<close>) has the same normalized value, has no \<open>duplicate_of\<close> itself, and no
  entry before it has that normalized value. An entry whose normalized value occurs for
  the first time gets no \<open>duplicate_of\<close>.
\<close>

theorem duplicate_of_points_to_first_occurrence:
  assumes snap: "analyze_path fs environ = Inr (raw_path, entries, grouped)"
  shows "(\<forall>e\<in>set entries. \<forall>k. duplicate_of e = Some k \<longrightarrow>
            1 \<le> k \<and> k < index e \<and> nat (k - 1) < length entries \<and>
            index (entries ! nat (k - 1)) = k \<and>
            normalized (entries ! nat (k - 1)) = normalized e \<and>
            duplicate_of (entries ! nat (k - 1)) = None \<and>
            (\<forall>j<nat (k - 1). normalized (entries ! j) \<noteq> normalized e)) \<and>
         (\<forall>i<length entries.
            (\<forall>j<i. normalized (entries ! j) \<noteq> normalized (entries ! i)) \<longrightarrow>
            duplicate_of (entries ! i) = None)"
proof (intro conjI ballI allI impI)
  fix i assume i: "i < length entries"
    and fresh: "\<forall>j<i. normalized (entries ! j) \<noteq> normalized (entries ! i)"
  show "duplicate_of (entries ! i) = None"
    using snapshot_duplicate_of[OF snap i] fresh
    by (auto simp: first_at_def split: option.splits)
next
  fix e k assume e: "e \<in> set entries" and d: "duplicate_of e = Some k"
  from e obtain i where i: "i < length entries" "entries ! i = e" by (auto simp: in_set_conv_nth)
  from snapshot_duplicate_of[OF snap i(1)] d i(2) obtain j where
    j: "j < i" "k = int j + 1" "first_at entries (normalized e) j" by auto
  have jl: "j < length entries" using j(1) i(1) by simp
  have kj: "nat (k - 1) = j" using j(2) by simp
  have ie: "index e = int i + 1" using snapshot_index[OF snap i(1)] i(2) by simp
  have nd: "duplicate_of (entries ! j) = None"
  proof (cases "duplicate_of (entries ! j)")
    case None then show ?thesis .
  next
    case (Some k')
    with snapshot_duplicate_of[OF snap jl] obtain j' where
      "j' < j" "first_at entries (normalized (entries ! j)) j'" by auto
    then have "normalized (entries ! j') = normalized e" using j(3) by (simp add: first_at_def)
    then show ?thesis using j(3) \<open>j' < j\<close> by (simp add: first_at_def)
  qed
  show "1 \<le> k" using j(2) by simp
  show "k < index e" using j ie by simp
  show "nat (k - 1) < length entries" using kj jl by simp
  show "index (entries ! nat (k - 1)) = k" using snapshot_index[OF snap jl] kj j(2) by simp
  show "normalized (entries ! nat (k - 1)) = normalized e" using j(3) kj by (simp add: first_at_def)
  show "duplicate_of (entries ! nat (k - 1)) = None" using nd kj by simp
  fix j' assume "j' < nat (k - 1)"
  then show "normalized (entries ! j') \<noteq> normalized e" using j(3) kj by (simp add: first_at_def)
qed

text \<open>
  The theorem at \<^verbatim>\<open>PATH=/usr/bin:/usr/bin:/nonexistent/toolbin\<close> (scenario A of the
  specification): the second entry is a duplicate of the first.
\<close>

theorem duplicate_witness:
  "map (\<lambda>e. (index e, normalized e, duplicate_of e)) (snapshot_entries scenario_A) =
     [(1, ''/usr/bin'', None), (2, ''/usr/bin'', Some 1), (3, ''/nonexistent/toolbin'', None)] \<and>
   index (snapshot_entries scenario_A ! nat (1 - 1)) = 1 \<and>
   (1::int) < index (snapshot_entries scenario_A ! 1) \<and>
   normalized (snapshot_entries scenario_A ! nat (1 - 1)) = normalized (snapshot_entries scenario_A ! 1) \<and>
   duplicate_of (snapshot_entries scenario_A ! nat (1 - 1)) = None"
proof -
  let ?es = "snapshot_entries scenario_A"
  have ev: "map (\<lambda>e. (index e, normalized e, duplicate_of e)) ?es =
     [(1, ''/usr/bin'', None), (2, ''/usr/bin'', Some 1), (3, ''/nonexistent/toolbin'', None)]"
    by code_simp
  from map_eq_nth[OF ev, of 1] have l1: "1 < length ?es" and d1: "duplicate_of (?es ! 1) = Some 1"
    by simp_all
  from l1 have "?es \<noteq> []" by auto
  from snapshot_Inr[OF this] obtain r g where
    snap: "analyze_path fs_usr (env_of_path ''/usr/bin:/usr/bin:/nonexistent/toolbin'') = Inr (r, ?es, g)"
    unfolding scenario_A_def by blast
  have mem: "?es ! 1 \<in> set ?es" using l1 by simp
  from duplicate_of_points_to_first_occurrence[OF snap] mem d1
  have "index (?es ! nat (1 - 1)) = 1 \<and> 1 < index (?es ! 1) \<and>
        normalized (?es ! nat (1 - 1)) = normalized (?es ! 1) \<and>
        duplicate_of (?es ! nat (1 - 1)) = None" by blast
  then show ?thesis using ev by simp
qed

section \<open>C2: a shadowing entry is an earlier strict ancestor\<close>

text \<open>
  Claim C2. In every snapshot, an entry \<open>e\<close> with \<open>shadowed_by e = Some k\<close> has
  \<open>k < index e\<close>, and the normalized value of the entry with index \<open>k\<close> differs from
  that of \<open>e\<close> and is a strict ancestor directory of it on component boundaries: its
  components (trailing separators stripped) are a strict prefix of the components of
  \<open>normalized e\<close>. So an entry is never marked as shadowed by an entry with an equal
  normalized value.
\<close>

theorem shadowed_by_strict_ancestor:
  assumes snap: "analyze_path fs environ = Inr (raw_path, entries, grouped)"
    and e: "e \<in> set entries" and s: "shadowed_by e = Some k"
  shows "1 \<le> k \<and> k < index e \<and> nat (k - 1) < length entries \<and>
         index (entries ! nat (k - 1)) = k \<and>
         normalized (entries ! nat (k - 1)) \<noteq> normalized e \<and>
         strict_ancestor_dir (normalized (entries ! nat (k - 1))) (normalized e)"
proof -
  from e obtain i where i: "i < length entries" "entries ! i = e" by (auto simp: in_set_conv_nth)
  from snapshot_shadowed_by[OF snap i(1)] s i(2) obtain j where
    j: "j < i" "k = int j + 1" "is_within (normalized (entries ! j)) (normalized e)" by auto
  have jl: "j < length entries" using j(1) i(1) by simp
  have kj: "nat (k - 1) = j" using j(2) by simp
  have ie: "index e = int i + 1" using snapshot_index[OF snap i(1)] i(2) by simp
  have "index (entries ! j) = k" using snapshot_index[OF snap jl] j(2) by simp
  moreover have "normalized (entries ! j) \<noteq> normalized e" using j(3) by (auto simp: is_within_def)
  moreover have "strict_ancestor_dir (normalized (entries ! j)) (normalized e)"
    using j(3) by (simp add: is_within_iff)
  ultimately show ?thesis using j ie jl kj by simp
qed

text \<open>The theorem at \<^verbatim>\<open>PATH=/a:/a/b:/a/b/c\<close>: the second entry is shadowed by the first.\<close>

theorem shadow_witness:
  "shadowed_by (snapshot_entries scenario_nested ! 1) = Some 1 \<and>
   (1::int) < index (snapshot_entries scenario_nested ! 1) \<and>
   index (snapshot_entries scenario_nested ! nat (1 - 1)) = 1 \<and>
   normalized (snapshot_entries scenario_nested ! nat (1 - 1)) \<noteq> normalized (snapshot_entries scenario_nested ! 1) \<and>
   strict_ancestor_dir (normalized (snapshot_entries scenario_nested ! nat (1 - 1)))
     (normalized (snapshot_entries scenario_nested ! 1))"
proof -
  let ?es = "snapshot_entries scenario_nested"
  have ev: "map shadowed_by ?es = [None, Some 1, Some 1]" by code_simp
  from map_eq_nth[OF ev, of 1] have l1: "1 < length ?es" and s1: "shadowed_by (?es ! 1) = Some 1"
    by simp_all
  from l1 have "?es \<noteq> []" by auto
  from snapshot_Inr[OF this] obtain r g where
    snap: "analyze_path (fs_of_dirs []) (env_of_path ''/a:/a/b:/a/b/c'') = Inr (r, ?es, g)"
    unfolding scenario_nested_def by blast
  have mem: "?es ! 1 \<in> set ?es" using l1 by simp
  from shadowed_by_strict_ancestor[OF snap mem s1] s1 show ?thesis by simp
qed

section \<open>C3: which ancestor is recorded\<close>

text \<open>
  Claim C3, amended. The claim says that \<open>shadowed_by\<close> is the index of the nearest prior
  ancestor entry. The scan runs over \<^verbatim>\<open>range(i)\<close> upwards and stops at the first hit,
  so what holds is: for every entry that has a strictly earlier entry whose normalized
  value is a strict ancestor directory of its own, \<open>shadowed_by\<close> is the index of the
  earliest such entry (position \<open>j0\<close>: no position before it holds an ancestor).
\<close>

theorem shadowed_by_earliest_ancestor:
  assumes snap: "analyze_path fs environ = Inr (raw_path, entries, grouped)"
    and i: "i < length entries" and j: "j < i"
    and anc: "strict_ancestor_dir (normalized (entries ! j)) (normalized (entries ! i))"
  shows "\<exists>j0\<le>j. shadowed_by (entries ! i) = Some (index (entries ! j0)) \<and>
           strict_ancestor_dir (normalized (entries ! j0)) (normalized (entries ! i)) \<and>
           (\<forall>j'<j0. \<not> strict_ancestor_dir (normalized (entries ! j')) (normalized (entries ! i)))"
proof (cases "shadowed_by (entries ! i)")
  case None
  with snapshot_shadowed_by[OF snap i] j anc show ?thesis by (auto simp: is_within_iff)
next
  case (Some k)
  with snapshot_shadowed_by[OF snap i] obtain j0 where
    j0: "j0 < i" "k = int j0 + 1" "is_within (normalized (entries ! j0)) (normalized (entries ! i))"
    "\<forall>j'<j0. \<not> is_within (normalized (entries ! j')) (normalized (entries ! i))" by auto
  have "j0 \<le> j"
  proof (rule ccontr)
    assume "\<not> j0 \<le> j"
    then have "j < j0" by simp
    with j0(4) anc show False by (simp add: is_within_iff)
  qed
  moreover have "index (entries ! j0) = k" using snapshot_index[OF snap, of j0] j0 i by simp
  ultimately show ?thesis using Some j0 by (auto simp: is_within_iff)
qed

text \<open>
  The amended theorem at \<^verbatim>\<open>PATH=/x:/x/y:/x/y/z\<close>, third entry: both earlier entries
  are ancestors, and the first is recorded.
\<close>

theorem earliest_ancestor_witness:
  "shadowed_by (snapshot_entries scenario_chain ! 2) = Some (index (snapshot_entries scenario_chain ! 0)) \<and>
   strict_ancestor_dir (normalized (snapshot_entries scenario_chain ! 1))
     (normalized (snapshot_entries scenario_chain ! 2)) \<and>
   strict_ancestor_dir (normalized (snapshot_entries scenario_chain ! 0))
     (normalized (snapshot_entries scenario_chain ! 2))"
proof -
  let ?es = "snapshot_entries scenario_chain"
  have ev: "map normalized ?es = [''/x'', ''/x/y'', ''/x/y/z'']" by code_simp
  from map_eq_nth[OF ev, of 0] map_eq_nth[OF ev, of 1] map_eq_nth[OF ev, of 2]
  have n: "normalized (?es ! 0) = ''/x''" "normalized (?es ! 1) = ''/x/y''"
    "normalized (?es ! 2) = ''/x/y/z''" and l: "2 < length ?es" by simp_all
  have a1: "strict_ancestor_dir ''/x/y'' ''/x/y/z''" by code_simp
  have a0: "strict_ancestor_dir ''/x'' ''/x/y/z''" by code_simp
  from l have "?es \<noteq> []" by auto
  from snapshot_Inr[OF this] obtain r g where
    snap: "analyze_path (fs_of_dirs []) (env_of_path ''/x:/x/y:/x/y/z'') = Inr (r, ?es, g)"
    unfolding scenario_chain_def by blast
  from shadowed_by_earliest_ancestor[OF snap l, of 1] a1 n obtain j0 where
    j0: "j0 \<le> 1" "shadowed_by (?es ! 2) = Some (index (?es ! j0))"
    "\<forall>j'<j0. \<not> strict_ancestor_dir (normalized (?es ! j')) (normalized (?es ! 2))" by auto
  have "j0 = 0"
  proof (rule ccontr)
    assume "j0 \<noteq> 0"
    then have "0 < j0" by simp
    with j0(3) a0 n show False by auto
  qed
  then show ?thesis using j0(2) a0 a1 n by simp
qed

text \<open>
  The claim as stated fails there: the nearest prior ancestor of the third entry
  \<^verbatim>\<open>/x/y/z\<close> is the second entry \<^verbatim>\<open>/x/y\<close>, and \<open>shadowed_by\<close> is 1.
\<close>

theorem nearest_ancestor_counterexample:
  "map (\<lambda>e. (index e, normalized e, shadowed_by e)) (snapshot_entries scenario_chain) =
     [(1, ''/x'', None), (2, ''/x/y'', Some 1), (3, ''/x/y/z'', Some 1)] \<and>
   strict_ancestor_dir ''/x/y'' ''/x/y/z'' \<and> strict_ancestor_dir ''/x'' ''/x/y/z''"
  by code_simp

section \<open>C4: the order of the classification rules\<close>

text \<open>
  Claim C4, amended. \<open>classify\<close> is a function of the path (and of the home directory
  read at import) and equals the first-match reading of the ordered rule table: system
  prefixes, developer prefixes, Homebrew prefixes, the keyword buckets in the order of
  \<open>KEYWORD_BUCKETS\<close>, the two regular expressions, and the default. In the Homebrew rule
  the reason is \<^verbatim>\<open>brew cellar\<close> exactly when the lower-cased path contains
  \<^verbatim>\<open>/cellar/\<close> (the rule \<open>homebrew_rule\<close>), otherwise \<^verbatim>\<open>brew prefix\<close>. A path that
  starts with a system prefix is classified \<^verbatim>\<open>System\<close> whatever else it contains.
\<close>

theorem classify_is_first_match:
  "classify h p = first_match (rule_table h) p \<and>
   (startswith_any p SYSTEM_PREFIXES \<longrightarrow> classify h p = (''System'', ''system prefix''))"
proof
  show "classify h p = first_match (rule_table h) p"
    unfolding rule_table_def
    by (simp add: classify_def Let_def first_match_buckets system_rule_def developer_rule_def
        homebrew_rule_def node_regex_rule_def python_regex_rule_def cellar_test
        split: option.splits del: first_match.simps(2) add: first_match_append_None)
  show "startswith_any p SYSTEM_PREFIXES \<longrightarrow> classify h p = (''System'', ''system prefix'')"
    by (simp add: classify_def)
qed

text \<open>
  The theorem at \<^verbatim>\<open>/usr/bin/python3\<close>, which starts with a system prefix and contains
  the keyword \<^verbatim>\<open>python\<close>.
\<close>

theorem classify_witness:
  "startswith_any ''/usr/bin/python3'' SYSTEM_PREFIXES \<and>
   sublist ''python'' (lower ''/usr/bin/python3'') \<and>
   classify ''/Users/dave'' ''/usr/bin/python3'' = (''System'', ''system prefix'') \<and>
   first_match (rule_table ''/Users/dave'') ''/usr/bin/python3'' = (''System'', ''system prefix'')"
proof -
  have h: "startswith_any ''/usr/bin/python3'' SYSTEM_PREFIXES" by code_simp
  have s: "sublist ''python'' (lower ''/usr/bin/python3'')" by code_simp
  show ?thesis
    using h s classify_is_first_match[of "''/Users/dave''" "''/usr/bin/python3''"] by metis
qed

text \<open>
  The claim as stated says \<^verbatim>\<open>brew cellar\<close> whenever the path contains a Cellar
  component. \<^verbatim>\<open>/usr/local/Cellar\<close> has the component \<^verbatim>\<open>Cellar\<close>, but no separator
  follows it, and the reason is \<^verbatim>\<open>brew prefix\<close>.
\<close>

theorem cellar_component_counterexample:
  "startswith_any ''/usr/local/Cellar'' BREW_PREFIXES \<and>
   ''Cellar'' \<in> set (path_components ''/usr/local/Cellar'') \<and>
   classify ''/Users/dave'' ''/usr/local/Cellar'' = (''Homebrew'', ''brew prefix'')"
  by code_simp

section \<open>C5: the limit of the suggestion list\<close>

text \<open>
  Claim C5 says that \<^verbatim>\<open>suggest_alternatives\<close> returns at most \<open>limit\<close> candidates for
  every non-negative \<open>limit\<close>. The loops test \<^verbatim>\<open>len(suggestions) >= limit\<close> only after
  appending, and return the list untruncated, while the final \<^verbatim>\<open>suggestions[:limit]\<close>
  truncates. With \<open>limit = 0\<close>, the missing path \<^verbatim>\<open>/opt/tool\<close> and the existing
  sibling \<^verbatim>\<open>/opt/tool2\<close>, the result has one element (as it has for \<open>limit = 1\<close>).
\<close>

theorem suggest_limit_zero:
  "suggest_alternatives (fs_of_dirs [''/'', ''/opt'', ''/opt/tool2'']) Map.empty ''/opt/tool'' 0 =
     Inr [''/opt/tool2''] \<and>
   suggest_alternatives (fs_of_dirs [''/'', ''/opt'', ''/opt/tool2'']) Map.empty ''/opt/tool'' 1 =
     Inr [''/opt/tool2'']"
  by code_simp

section \<open>The limit of the suggestion list from 1 on\<close>

text \<open>
  Property X1. For every \<open>limit\<close> of at least 1, a list that \<^verbatim>\<open>suggest_alternatives\<close> returns has at
  most \<open>limit\<close> elements: each loop is entered with fewer than \<open>limit\<close> suggestions and
  returns as soon as an append reaches \<open>limit\<close>.
\<close>

theorem suggest_alternatives_bound:
  assumes "1 \<le> limit" and "suggest_alternatives fs environ p limit = Inr r"
  shows "int (length r) \<le> limit"
proof -
  have z: "int (length ([]::string list)) < limit" using assms(1) by simp
  from assms(2) obtain nrm where n: "normalize_dir fs environ p = Inr nrm"
    by (auto simp: suggest_alternatives_def split: sum.splits)
  show ?thesis
  proof (cases "strip (path_str (Path nrm)) = []")
    case True
    then show ?thesis using assms n by (auto simp: suggest_alternatives_def)
  next
    case ne: False
    from assms(2) n ne obtain existing_ancestor where
      fa: "find_existing_ancestor fs (Path nrm) = Inr existing_ancestor"
      by (auto simp: suggest_alternatives_def Let_def split: sum.splits)
    define step3 where "step3 =
      (case existing_ancestor of
         None \<Rightarrow> Next []
       | Some anc \<Rightarrow>
           (case iterdir fs (path_str anc) of
              None \<Rightarrow> Next []
            | Some names \<Rightarrow> sibling_loop fs anc (path_name (Path nrm)) limit (sort names) []))"
    have b3: "within_limit limit [] step3"
      unfolding step3_def using z sibling_loop_bound[OF z] within_limit_Next[OF z]
      by (simp split: option.splits)
    have eq: "suggest_alternatives fs environ p limit =
      (case step3 of
         Return r \<Rightarrow> Inr r
       | Raise err \<Rightarrow> Inl err
       | Next suggestions \<Rightarrow>
           if path_name (Path nrm) \<in> {''bin'', ''sbin''}
           then (case ancestor_walk fs limit 4 (path_parent (Path nrm)) suggestions of
                   Return r \<Rightarrow> Inr r
                 | Raise err \<Rightarrow> Inl err
                 | Next suggestions' \<Rightarrow> Inr (py_slice_to suggestions' limit))
           else Inr (py_slice_to suggestions limit))"
      using n ne fa by (simp add: suggest_alternatives_def Let_def step3_def)
    show ?thesis
    proof (cases step3)
      case (Return r')
      then show ?thesis using eq assms b3 by (simp add: within_limit_def)
    next
      case (Raise err)
      then show ?thesis using eq assms by simp
    next
      case (Next s)
      then have sl: "int (length s) < limit" using b3 by (simp add: within_limit_def)
      show ?thesis
      proof (cases "path_name (Path nrm) = ''bin'' \<or> path_name (Path nrm) = ''sbin''")
        case False
        then have "r = py_slice_to s limit" using eq Next assms(2) by simp
        then show ?thesis using py_slice_to_bound[of limit s] assms(1) by simp
      next
        case True
        define w where "w = ancestor_walk fs limit 4 (path_parent (Path nrm)) s"
        have ww: "within_limit limit s w" unfolding w_def using sl by (rule ancestor_walk_bound)
        have eq2: "suggest_alternatives fs environ p limit =
            (case w of Return r \<Rightarrow> Inr r | Raise err \<Rightarrow> Inl err
             | Next suggestions' \<Rightarrow> Inr (py_slice_to suggestions' limit))"
          using eq Next True by (simp add: w_def)
        show ?thesis
        proof (cases w)
          case (Next s')
          then have "r = py_slice_to s' limit" using eq2 assms(2) by simp
          then show ?thesis using py_slice_to_bound[of limit s'] assms(1) by simp
        next
          case (Return r')
          then show ?thesis using eq2 assms(2) ww by (simp add: within_limit_def)
        next
          case (Raise err)
          then show ?thesis using eq2 assms(2) by simp
        qed
      qed
    qed
  qed
qed

text \<open>The bound at \<open>limit = 1\<close> with two matching siblings.\<close>

theorem suggest_bound_witness:
  "suggest_alternatives (fs_of_dirs [''/'', ''/opt'', ''/opt/tool2'', ''/opt/tool3'']) Map.empty ''/opt/tool'' 1 =
     Inr [''/opt/tool2''] \<and>
   int (length [''/opt/tool2'']) \<le> 1"
proof -
  have e: "suggest_alternatives (fs_of_dirs [''/'', ''/opt'', ''/opt/tool2'', ''/opt/tool3'']) Map.empty ''/opt/tool'' 1 =
     Inr [''/opt/tool2'']" by code_simp
  have "(1::int) \<le> 1" by simp
  from suggest_alternatives_bound[OF this e] e show ?thesis by simp
qed

section \<open>C6: the environment is restored\<close>

text \<open>
  Claim C6. \<^verbatim>\<open>reanalyze_with\<close> and the re-grouping at the end of \<^verbatim>\<open>main\<close> leave
  \<^verbatim>\<open>os.environ\<close> as it was on entry, whether \<^verbatim>\<open>analyze_path\<close> returns or raises
  (the environment returned is the one after the \<^verbatim>\<open>finally\<close> clause in both cases).
  The hypothesis is that \<^verbatim>\<open>PATH\<close> is set on entry: the saved value is
  \<^verbatim>\<open>os.environ.get("PATH", "")\<close>. Both call sites are reached only when a snapshot has
  broken entries, and a snapshot of an unset \<^verbatim>\<open>PATH\<close> has no entries
  (\<open>analyze_path_unset\<close>).
\<close>

theorem path_restored:
  assumes "environ ''PATH'' = Some v"
  shows "snd (reanalyze_with fs environ path_value) = environ \<and>
         snd (main_regroup fs environ raw_path) = environ"
  using assms
  by (simp add: reanalyze_with_def main_regroup_def Let_def environ_get_def map_upd_triv)

text \<open>
  The theorem at \<^verbatim>\<open>PATH=/usr/bin:/gone\<close>, on a normal return and on an exception
  (\<^verbatim>\<open>~nobody/bin\<close> cannot be expanded).
\<close>

theorem path_restored_witness:
  "env_of_path ''/usr/bin:/gone'' ''PATH'' = Some ''/usr/bin:/gone'' \<and>
   snd (reanalyze_with fs_usr (env_of_path ''/usr/bin:/gone'') ''/usr/bin:/tmp'') =
     env_of_path ''/usr/bin:/gone'' \<and>
   snd (main_regroup fs_usr (env_of_path ''/usr/bin:/gone'') ''/usr/bin:/tmp'') =
     env_of_path ''/usr/bin:/gone'' \<and>
   fst (reanalyze_with fs_usr (env_of_path ''/usr/bin:/gone'') ''~nobody/bin'') = Inl RuntimeError \<and>
   snd (reanalyze_with fs_usr (env_of_path ''/usr/bin:/gone'') ''~nobody/bin'') =
     env_of_path ''/usr/bin:/gone''"
proof -
  have h: "env_of_path ''/usr/bin:/gone'' ''PATH'' = Some ''/usr/bin:/gone''"
    by (simp add: env_of_path_def)
  have r: "fst (reanalyze_with fs_usr (env_of_path ''/usr/bin:/gone'') ''~nobody/bin'') = Inl RuntimeError"
    by code_simp
  show ?thesis
    using h r
      path_restored[of "env_of_path ''/usr/bin:/gone''" "''/usr/bin:/gone''" fs_usr
        "''/usr/bin:/tmp''" "''/usr/bin:/tmp''"]
      path_restored[of "env_of_path ''/usr/bin:/gone''" "''/usr/bin:/gone''" fs_usr
        "''~nobody/bin''" "''~nobody/bin''"]
    by simp
qed

section \<open>C7: a failed directory creation\<close>





section \<open>C8: joining and splitting again\<close>

text \<open>
  Claim C8 says that joining the session's \<^verbatim>\<open>parts\<close> with \<^verbatim>\<open>rebuild_path\<close> and
  splitting the result again gives back \<^verbatim>\<open>parts\<close>, for every list the session holds.
  The fixer relies on this: it selects an entry of the snapshot of the joined string and
  then changes \<^verbatim>\<open>parts[e.index - 1]\<close>. But Replace-manual stores the typed text as it
  is, without looking for the path separator in it. With \<^verbatim>\<open>PATH=/gone:/usr/bin\<close> the
  user selects entry 1, replaces it by the existing directory \<^verbatim>\<open>/a:b\<close> (action 3) and
  quits: \<^verbatim>\<open>parts\<close> has the two segments \<^verbatim>\<open>/a:b\<close> and \<^verbatim>\<open>/usr/bin\<close>, and the joined
  string splits into the three segments \<^verbatim>\<open>/a\<close>, \<^verbatim>\<open>b\<close> and \<^verbatim>\<open>/usr/bin\<close>.
\<close>

theorem typed_separator_breaks_round_trip:
  "session_view (run_session mkdir_denied fs_colon ''/gone:/usr/bin'' [''1'', ''3'', ''/a:b'', ''q'']) =
     Some (''/a:b:/usr/bin'', [False, True, False], [''/a:b'', ''/usr/bin''],
           [SESSION_START, ORIGINAL_PATH ''/gone:/usr/bin'', REPLACE_manual 1 ''/gone'' ''/a:b'', QUIT,
            SESSION_COMPLETE, PROPOSED_PATH ''/a:b:/usr/bin'']) \<and>
   rebuild_path [''/a:b'', ''/usr/bin''] = ''/a:b:/usr/bin'' \<and>
   split_path (rebuild_path [''/a:b'', ''/usr/bin'']) = [''/a'', ''b'', ''/usr/bin''] \<and>
   split_path (rebuild_path [''/a:b'', ''/usr/bin'']) \<noteq> [''/a:b'', ''/usr/bin'']"
  by code_simp

section \<open>C9: removing a broken entry\<close>

text \<open>
  Claim C9 says that a Remove action on a broken entry lowers the broken count of the
  rebuilt snapshot by at least one and makes no healthy entry broken. In the state
  reached by the replacement above, the snapshot of \<^verbatim>\<open>/a:b\<close>, \<^verbatim>\<open>/usr/bin\<close> has three
  entries, of which the second, \<^verbatim>\<open>b\<close>, is the only broken one (first session, which
  previews and quits). In the second session the user selects that entry 2 and removes
  it (action 2): the log says that \<^verbatim>\<open>b\<close> was removed, the code deletes
  \<^verbatim>\<open>parts[1]\<close>, which is the healthy \<^verbatim>\<open>/usr/bin\<close>, and the new snapshot still has
  one broken entry, \<^verbatim>\<open>b\<close>.
\<close>

theorem remove_deletes_another_segment:
  "session_view (run_session mkdir_denied fs_colon ''/gone:/usr/bin'' [''1'', ''3'', ''/a:b'', ''p'', ''q'']) =
     Some (''/a:b:/usr/bin'', [False, True, False], [''/a:b'', ''/usr/bin''],
           [SESSION_START, ORIGINAL_PATH ''/gone:/usr/bin'', REPLACE_manual 1 ''/gone'' ''/a:b'', PREVIEW,
            QUIT, SESSION_COMPLETE, PROPOSED_PATH ''/a:b:/usr/bin'']) \<and>
   session_view (run_session mkdir_denied fs_colon ''/gone:/usr/bin''
                   [''1'', ''3'', ''/a:b'', ''2'', ''2'', ''q'']) =
     Some (''/a:b'', [False, True], [''/a:b''],
           [SESSION_START, ORIGINAL_PATH ''/gone:/usr/bin'', REPLACE_manual 1 ''/gone'' ''/a:b'',
            REMOVE 2 ''b'', QUIT, SESSION_COMPLETE, PROPOSED_PATH ''/a:b''])"
  by code_simp

section \<open>C10: empty segments of the proposed string\<close>

text \<open>
  Claim C10 says that the proposed string never contains an empty segment, because
  \<^verbatim>\<open>rebuild_path\<close> filters the empty strings out of \<^verbatim>\<open>parts\<close>. The filter looks at the
  elements of \<^verbatim>\<open>parts\<close>, not at the segments of the joined string, and Replace-manual
  stores a typed text that ends in the separator as it is. With \<^verbatim>\<open>PATH=/gone\<close> the
  user selects entry 1, replaces it by the existing directory \<^verbatim>\<open>/tmp/x:\<close> (action 3)
  and quits: the proposed string is \<^verbatim>\<open>/tmp/x:\<close>, whose second segment is empty. The
  final snapshot has the broken entry \<^verbatim>\<open>/tmp/x\<close> and an entry for the empty segment,
  which stands for the working directory and is not broken.
\<close>

theorem typed_separator_leaves_empty_segment:
  "session_view (run_session mkdir_denied fs_trailing ''/gone'' [''1'', ''3'', ''/tmp/x:'', ''q'']) =
     Some (''/tmp/x:'', [True, False], [''/tmp/x:''],
           [SESSION_START, ORIGINAL_PATH ''/gone'', REPLACE_manual 1 ''/gone'' ''/tmp/x:'', QUIT,
            SESSION_COMPLETE, PROPOSED_PATH ''/tmp/x:'']) \<and>
   rebuild_path [''/tmp/x:''] = ''/tmp/x:'' \<and>
   split_path ''/tmp/x:'' = [''/tmp/x'', []] \<and>
   [] \<in> set (split_path (rebuild_path [''/tmp/x:'']))"
  by code_simp

section \<open>The proposed string of a session that changes nothing\<close>

text \<open>
  Property X2. The list a session starts from is the list of the non-empty segments of
  the raw \<^verbatim>\<open>PATH\<close> string; joined by \<^verbatim>\<open>rebuild_path\<close> and split again it is the same
  list, with no empty segment. A session that is entered (some entry is broken) and whose
  first command is \<^verbatim>\<open>q\<close> ends within the fuel \<open>Suc n\<close> with \<^verbatim>\<open>parts\<close> equal to that
  list, and when it returns (no snapshot raised) the string it returns is that list
  joined: the empty segments of the input are gone although the user changed nothing.
\<close>

theorem quit_proposes_initial_parts:
  assumes "filter is_broken entries \<noteq> []"
    and "stdin st = line # rest" and "lower (strip line) = ''q''"
  shows "initial_parts raw_path = filter (\<lambda>p. p \<noteq> []) (split_path raw_path) \<and>
         split_path (rebuild_path (initial_parts raw_path)) = initial_parts raw_path \<and>
         [] \<notin> set (split_path (rebuild_path (initial_parts raw_path))) \<and>
         (\<exists>r env' st'.
            interactive_fix_broken_paths mk (Suc n) env raw_path entries st = Some (r, env', st') \<and>
            cur_parts st' = initial_parts raw_path \<and>
            (case r of
               Inl err \<Rightarrow> True
             | Inr (new_raw, new_entries) \<Rightarrow> new_raw = rebuild_path (initial_parts raw_path)))"
proof -
  have rt: "split_path (rebuild_path (initial_parts raw_path)) = initial_parts raw_path"
    using initial_parts_clean by (rule split_path_rebuild_path)
  have "[] \<notin> set (initial_parts raw_path)" using initial_parts_clean[of raw_path] by blast
  then show ?thesis
    using rt session_quit[OF assms, of mk n env raw_path] by (simp add: initial_parts_def)
qed

text \<open>
  The theorem at \<^verbatim>\<open>PATH=/usr/bin::/gone:\<close>, which has two empty segments, and the
  session on it that quits at once.
\<close>

theorem quit_proposes_witness:
  "split_path ''/usr/bin::/gone:'' = [''/usr/bin'', [], ''/gone'', []] \<and>
   initial_parts ''/usr/bin::/gone:'' = [''/usr/bin'', ''/gone''] \<and>
   rebuild_path (initial_parts ''/usr/bin::/gone:'') = ''/usr/bin:/gone'' \<and>
   split_path (rebuild_path (initial_parts ''/usr/bin::/gone:'')) = [''/usr/bin'', ''/gone''] \<and>
   session_view (run_session mkdir_denied fs_usr ''/usr/bin::/gone:'' [''q'']) =
     Some (''/usr/bin:/gone'', [False, True], [''/usr/bin'', ''/gone''],
           [SESSION_START, ORIGINAL_PATH ''/usr/bin::/gone:'', QUIT, SESSION_COMPLETE,
            PROPOSED_PATH ''/usr/bin:/gone''])"
proof -
  let ?raw = "''/usr/bin::/gone:''"
  let ?es = "snapshot_entries (analyze_path fs_usr (env_of_path ?raw))"
  let ?st = "\<lparr>cur_parts = [], logged = [], stdin = [''q''], disk = fs_usr\<rparr>"
  have s: "split_path ?raw = [''/usr/bin'', [], ''/gone'', []]" by code_simp
  have ip: "initial_parts ?raw = [''/usr/bin'', ''/gone'']" by code_simp
  have r: "rebuild_path [''/usr/bin'', ''/gone''] = ''/usr/bin:/gone''" by code_simp
  have b: "filter is_broken ?es \<noteq> []" by code_simp
  have q: "lower (strip ''q'') = ''q''" by code_simp
  have v: "session_view (run_session mkdir_denied fs_usr ?raw [''q'']) =
     Some (''/usr/bin:/gone'', [False, True], [''/usr/bin'', ''/gone''],
           [SESSION_START, ORIGINAL_PATH ''/usr/bin::/gone:'', QUIT, SESSION_COMPLETE,
            PROPOSED_PATH ''/usr/bin:/gone''])"
    by code_simp
  have i: "stdin ?st = ''q'' # []" by simp
  from quit_proposes_initial_parts[OF b i q, of ?raw]
  have "split_path (rebuild_path (initial_parts ?raw)) = initial_parts ?raw" by blast
  then show ?thesis using s ip r v by simp
qed

section \<open>The snapshot reads the environment it is given\<close>

text \<open>
  Property X3. \<^verbatim>\<open>analyze_path\<close> expands every segment with \<^verbatim>\<open>os.path.expandvars\<close>,
  which reads \<^verbatim>\<open>os.environ\<close>, and \<^verbatim>\<open>reanalyze_with\<close> has put the candidate string
  there as \<^verbatim>\<open>PATH\<close>. So a segment \<^verbatim>\<open>$PATH\<close> stands for the whole candidate string, and
  its status changes with the other segments. With \<^verbatim>\<open>PATH\<close> set to the text
  \<^verbatim>\<open>gone:$PATH\<close> and a directory of that name in the working directory, the first
  entry \<^verbatim>\<open>gone\<close> is broken and the second is healthy (first session, which quits at
  once). Removing entry 1 (second session) deletes \<^verbatim>\<open>parts[0]\<close>, which is that
  entry's own segment; the candidate string is then \<^verbatim>\<open>$PATH\<close>, the remaining segment
  expands to itself, and it is broken: the broken count is still one.
\<close>

theorem snapshot_depends_on_candidate:
  "map (\<lambda>e. (index e, raw e, expanded e, is_broken e))
     (snapshot_entries (analyze_path fs_self (env_of_path ''gone:$PATH''))) =
     [(1, ''gone'', ''gone'', True), (2, ''$PATH'', ''gone:$PATH'', False)] \<and>
   session_view (run_session mkdir_denied fs_self ''gone:$PATH'' [''q'']) =
     Some (''gone:$PATH'', [True, False], [''gone'', ''$PATH''],
           [SESSION_START, ORIGINAL_PATH ''gone:$PATH'', QUIT, SESSION_COMPLETE,
            PROPOSED_PATH ''gone:$PATH'']) \<and>
   session_view (run_session mkdir_denied fs_self ''gone:$PATH'' [''1'', ''2'', ''q'']) =
     Some (''$PATH'', [True], [''$PATH''],
           [SESSION_START, ORIGINAL_PATH ''gone:$PATH'', REMOVE 1 ''gone'', QUIT,
            SESSION_COMPLETE, PROPOSED_PATH ''$PATH''])"
  by code_simp

end
